theory Spec2Isabelle
  imports Main "HOL-Library.Word" "HOL-Library.Char_ord"
begin

unbundle bit_operations_syntax

section \<open>TSSLSocket.cpp: the secure socket transport\<close>

text \<open>
  A shallow embedding of \<^verbatim>\<open>lib/cpp/src/transport/TSSLSocket.cpp\<close>. Byte buffers
  (\<^verbatim>\<open>char*\<close>, \<^verbatim>\<open>uint8_t*\<close>) are \<open>string\<close>s (lists of 8-bit characters), C
  \<^verbatim>\<open>int\<close> counters that only count up from 0 are \<open>nat\<close>, sizes handed in by a
  caller are \<open>int\<close>, and \<^verbatim>\<open>int32_t\<close>/\<^verbatim>\<open>uint32_t\<close> values whose conversion matters
  are \<open>32 word\<close>. Exceptions are values of the type \<open>error\<close>, returned as \<open>Inl\<close>.
\<close>

subsection \<open>Exceptions and decisions\<close>

datatype TTransportExceptionType = BAD_ARGS | NOT_OPEN | INTERNAL_ERROR

datatype error =
    TSSLException string
  | TTransportException TTransportExceptionType string
  | std_bad_alloc

datatype Decision = DENY | ALLOW | SKIP

subsection \<open>Hostname matching\<close>

text \<open>
  \<^verbatim>\<open>char uppercase(char c)\<close>: the letters \<^verbatim>\<open>'a'..'z'\<close> are moved by
  \<^verbatim>\<open>'A' - 'a'\<close>; every other byte is returned as it is.
\<close>

definition uppercase :: "char \<Rightarrow> char" where
  "uppercase c =
     (if CHR ''a'' \<le> c \<and> c \<le> CHR ''z''
      then char_of ((of_char c :: int) + (of_char CHR ''A'' - of_char CHR ''a''))
      else c)"

text \<open>
  \<^verbatim>\<open>host[j]\<close> for a NUL-terminated C string whose characters are the list \<open>host\<close>:
  the terminator is read at the end of the list (and an embedded NUL reads as NUL too,
  which ends every loop below just as the terminator does).
\<close>

definition cstr_at :: "string \<Rightarrow> nat \<Rightarrow> char" where
  "cstr_at host j = (if j < length host then host ! j else CHR 0x00)"

text \<open>
  The inner loop of \<^verbatim>\<open>matchName\<close>:
  \<^verbatim>\<open>while (host[j] != '.' && host[j] != '\0') { j++; }\<close>
\<close>

function skip_label :: "string \<Rightarrow> nat \<Rightarrow> nat" where
  "skip_label host j =
     (if cstr_at host j \<noteq> CHR ''.'' \<and> cstr_at host j \<noteq> CHR 0x00
      then skip_label host (j + 1)
      else j)"
  by pat_completeness auto
termination
  by (relation "measure (\<lambda>(host, j). length host - j)")
     (auto simp: cstr_at_def split: if_splits)

declare skip_label.simps [simp del]

text \<open>
  The outer loop of \<^verbatim>\<open>matchName\<close>, from the state \<open>(i, j)\<close> to the state in which
  the loop is left (by its condition or by \<^verbatim>\<open>break\<close>). The pattern is the buffer of
  \<open>sz\<close> bytes at \<^verbatim>\<open>pattern\<close>; the callers pass a size that is the length of the
  buffer, so \<open>pattern ! i\<close> is read below \<open>sz\<close> only.
\<close>

function matchName_loop :: "string \<Rightarrow> string \<Rightarrow> int \<Rightarrow> nat \<Rightarrow> nat \<Rightarrow> nat \<times> nat" where
  "matchName_loop host pattern sz i j =
     (if int i < sz \<and> cstr_at host j \<noteq> CHR 0x00 then
        (if uppercase (pattern ! i) = uppercase (cstr_at host j) then
           matchName_loop host pattern sz (i + 1) (j + 1)
         else if pattern ! i = CHR ''*'' then
           matchName_loop host pattern sz (i + 1) (skip_label host j)
         else (i, j))
      else (i, j))"
  by pat_completeness auto
termination
  by (relation "measure (\<lambda>(host, pattern, sz, i, j). nat (sz - int i))") auto

declare matchName_loop.simps [simp del]

definition matchName :: "string \<Rightarrow> string \<Rightarrow> int \<Rightarrow> bool" where
  "matchName host pattern sz =
     (case matchName_loop host pattern sz 0 0 of
        (i, j) \<Rightarrow> int i = sz \<and> cstr_at host j = CHR 0x00)"

subsection \<open>Socket addresses and the default access manager\<close>

datatype sa_family = AF_UNSPEC | AF_INET | AF_INET6 | AF_OTHER nat

text \<open>
  A \<^verbatim>\<open>sockaddr_storage\<close> as the code reads it: the family, the four bytes of
  \<^verbatim>\<open>((sockaddr_in*)&sa)->sin_addr\<close> and the sixteen bytes of
  \<^verbatim>\<open>((sockaddr_in6*)&sa)->sin6_addr\<close>.
\<close>

record sockaddr_storage =
  ss_family :: sa_family
  sin_addr :: string
  sin6_addr :: string

definition sizeof_in_addr :: int where
  "sizeof_in_addr = 4"

definition sizeof_in6_addr :: int where
  "sizeof_in6_addr = 16"

text \<open>\<^verbatim>\<open>memcmp(a, b, n) == 0\<close> on two buffers that hold at least \<open>n\<close> bytes.\<close>

definition memcmp_eq :: "string \<Rightarrow> string \<Rightarrow> nat \<Rightarrow> bool" where
  "memcmp_eq a b n = (take n a = take n b)"

text \<open>
  The three overloads of \<^verbatim>\<open>AccessManager::verify\<close>. A \<^verbatim>\<open>NULL\<close> name is \<open>None\<close>.
\<close>

record AccessManager =
  verify_addr :: "sockaddr_storage \<Rightarrow> Decision"
  verify_host :: "string \<Rightarrow> string option \<Rightarrow> int \<Rightarrow> Decision"
  verify_data :: "sockaddr_storage \<Rightarrow> string \<Rightarrow> int \<Rightarrow> Decision"

definition DefaultClientAccessManager_verify_addr :: "sockaddr_storage \<Rightarrow> Decision" where
  "DefaultClientAccessManager_verify_addr sa = SKIP"

definition DefaultClientAccessManager_verify_host ::
    "string \<Rightarrow> string option \<Rightarrow> int \<Rightarrow> Decision" where
  "DefaultClientAccessManager_verify_host host name sz =
     (case name of
        None \<Rightarrow> SKIP
      | Some pattern \<Rightarrow>
          if host = [] \<or> sz \<le> 0 then SKIP
          else if matchName host pattern sz then ALLOW else SKIP)"

definition DefaultClientAccessManager_verify_data ::
    "sockaddr_storage \<Rightarrow> string \<Rightarrow> int \<Rightarrow> Decision" where
  "DefaultClientAccessManager_verify_data sa data sz =
     (let match =
        (if ss_family sa = AF_INET \<and> sz = sizeof_in_addr then
           memcmp_eq (sin_addr sa) data (nat sz)
         else if ss_family sa = AF_INET6 \<and> sz = sizeof_in6_addr then
           memcmp_eq (sin6_addr sa) data (nat sz)
         else False)
      in if match then ALLOW else SKIP)"

definition DefaultClientAccessManager :: AccessManager where
  "DefaultClientAccessManager =
     \<lparr> verify_addr = DefaultClientAccessManager_verify_addr,
       verify_host = DefaultClientAccessManager_verify_host,
       verify_data = DefaultClientAccessManager_verify_data \<rparr>"

subsection \<open>Certificates, sessions and sockets\<close>

datatype gen_type = GEN_DNS | GEN_IPADD | GEN_OTHER nat

text \<open>A \<^verbatim>\<open>GENERAL_NAME\<close>: its type and the bytes of \<^verbatim>\<open>name->d.ia5\<close>.\<close>

record GENERAL_NAME =
  gn_type :: gen_type
  ia5 :: string

datatype nid = NID_commonName | NID_other nat

text \<open>
  An entry of the subject name: its NID and the bytes \<^verbatim>\<open>ASN1_STRING_to_UTF8\<close>
  yields for its data.
\<close>

record X509_NAME_ENTRY =
  entry_nid :: nid
  entry_utf8 :: string

text \<open>
  The peer certificate as \<^verbatim>\<open>authorize\<close> reads it: the stack that
  \<^verbatim>\<open>X509_get_ext_d2i(cert, NID_subject_alt_name, ...)\<close> returns (\<open>None\<close> for
  \<^verbatim>\<open>NULL\<close>, and a \<^verbatim>\<open>NULL\<close> element is \<open>None\<close>), and the entries of
  \<^verbatim>\<open>X509_get_subject_name(cert)\<close>.
\<close>

record X509 =
  subject_alt_name :: "GENERAL_NAME option list option"
  subject_name :: "X509_NAME_ENTRY list option"

text \<open>
  The session as the code observes it after the handshake. \<open>verify_error_string\<close> is
  what \<^verbatim>\<open>X509_verify_cert_error_string\<close> returns for \<open>verify_result\<close>.
\<close>

record SSL =
  verify_result :: int
  verify_error_string :: string
  peer_certificate :: "X509 option"
  verify_mode :: "32 word"

definition X509_V_OK :: int where
  "X509_V_OK = 0"

definition SSL_VERIFY_FAIL_IF_NO_PEER_CERT :: "32 word" where
  "SSL_VERIFY_FAIL_IF_NO_PEER_CERT = 0x02"

text \<open>
  The socket: what \<^verbatim>\<open>TSocket::isOpen()\<close>, \<^verbatim>\<open>getHost()\<close>, \<^verbatim>\<open>getPeerHost()\<close> and
  \<^verbatim>\<open>getpeername(socket_, ...)\<close> (\<open>None\<close> when it fails) answer, and the members
  \<^verbatim>\<open>server_\<close>, \<^verbatim>\<open>ssl_\<close>, \<^verbatim>\<open>access_\<close> and \<^verbatim>\<open>maxRecvRetries_\<close> (written without the
  trailing underscore).
\<close>

record TSSLSocket =
  TSocket_isOpen :: bool
  server :: bool
  ssl :: "SSL option"
  access :: "AccessManager option"
  getHost :: string
  getPeerHost :: string
  getpeername :: "sockaddr_storage option"
  maxRecvRetries :: int

text \<open>The calls made on the access manager, in the order they are made.\<close>

datatype query =
    VerifyAddr sockaddr_storage
  | VerifyHost string string int
  | VerifyData sockaddr_storage string int

text \<open>\<^verbatim>\<open>sockaddr_storage sa = {}\<close> with \<^verbatim>\<open>sa.ss_family = AF_UNSPEC\<close>.\<close>

definition unspec_sockaddr :: sockaddr_storage where
  "unspec_sockaddr =
     \<lparr> ss_family = AF_UNSPEC,
       sin_addr = replicate 4 (CHR 0x00),
       sin6_addr = replicate 16 (CHR 0x00) \<rparr>"

subsection \<open>Authorization\<close>

text \<open>
  The loop over the alternate names,
  \<^verbatim>\<open>for (int i = 0; decision == SKIP && i < count; i++)\<close>, on the state
  (decision, host, calls made so far).
\<close>

fun alternatives_loop ::
    "AccessManager \<Rightarrow> TSSLSocket \<Rightarrow> sockaddr_storage \<Rightarrow> GENERAL_NAME option list \<Rightarrow>
     Decision \<times> string \<times> query list \<Rightarrow> Decision \<times> string \<times> query list" where
  "alternatives_loop am s sa [] st = st"
| "alternatives_loop am s sa (name # names) (decision, host, asked) =
     (if decision \<noteq> SKIP then (decision, host, asked)
      else case name of
        None \<Rightarrow> alternatives_loop am s sa names (decision, host, asked)
      | Some n \<Rightarrow>
          (case gn_type n of
             GEN_DNS \<Rightarrow>
               (let host' = (if host = [] then (if server s then getPeerHost s else getHost s)
                             else host)
                in alternatives_loop am s sa names
                     (verify_host am host' (Some (ia5 n)) (int (length (ia5 n))), host',
                      asked @ [VerifyHost host' (ia5 n) (int (length (ia5 n)))]))
           | GEN_IPADD \<Rightarrow>
               alternatives_loop am s sa names
                 (verify_data am sa (ia5 n) (int (length (ia5 n))), host,
                  asked @ [VerifyData sa (ia5 n) (int (length (ia5 n)))])
           | GEN_OTHER t \<Rightarrow> alternatives_loop am s sa names (decision, host, asked)))"

text \<open>
  \<^verbatim>\<open>X509_NAME_get_index_by_NID(name, nid, lastpos)\<close>: the first index after
  \<open>lastpos\<close> whose entry has the NID, or \<open>-1\<close>; and \<^verbatim>\<open>X509_NAME_get_entry\<close>.
\<close>

definition X509_NAME_get_index_by_NID :: "X509_NAME_ENTRY list \<Rightarrow> nid \<Rightarrow> int \<Rightarrow> int" where
  "X509_NAME_get_index_by_NID name n lastpos =
     (case find (\<lambda>i. entry_nid (name ! i) = n) [nat (lastpos + 1) ..< length name] of
        None \<Rightarrow> - 1
      | Some i \<Rightarrow> int i)"

definition X509_NAME_get_entry :: "X509_NAME_ENTRY list \<Rightarrow> int \<Rightarrow> X509_NAME_ENTRY option" where
  "X509_NAME_get_entry name loc =
     (if 0 \<le> loc \<and> loc < int (length name) then Some (name ! nat loc) else None)"

lemma X509_NAME_get_index_by_NID_range:
  assumes "X509_NAME_get_index_by_NID name n lastpos \<noteq> - 1"
  shows "lastpos < X509_NAME_get_index_by_NID name n lastpos"
    and "X509_NAME_get_index_by_NID name n lastpos < int (length name)"
    and "lastpos < int (length name)"
proof -
  obtain i where f: "find (\<lambda>i. entry_nid (name ! i) = n) [nat (lastpos + 1) ..< length name] = Some i"
    using assms by (auto simp: X509_NAME_get_index_by_NID_def split: option.splits)
  then have r: "X509_NAME_get_index_by_NID name n lastpos = int i"
    by (simp add: X509_NAME_get_index_by_NID_def)
  from f have "i \<in> set [nat (lastpos + 1) ..< length name]"
    by (auto simp: find_Some_iff)
  then have "nat (lastpos + 1) \<le> i" "i < length name"
    by simp_all
  then show "lastpos < X509_NAME_get_index_by_NID name n lastpos"
    and "X509_NAME_get_index_by_NID name n lastpos < int (length name)"
    and "lastpos < int (length name)"
    unfolding r by linarith+
qed

text \<open>The loop over the common names, \<^verbatim>\<open>while (decision == SKIP)\<close>.\<close>

function commonName_loop ::
    "AccessManager \<Rightarrow> TSSLSocket \<Rightarrow> X509_NAME_ENTRY list \<Rightarrow> int \<Rightarrow>
     Decision \<times> string \<times> query list \<Rightarrow> Decision \<times> string \<times> query list" where
  "commonName_loop am s name lastpos (decision, host, asked) =
     (if decision = SKIP then
        (if X509_NAME_get_index_by_NID name NID_commonName lastpos = - 1 then
           (decision, host, asked)
         else
           (case X509_NAME_get_entry name
                   (X509_NAME_get_index_by_NID name NID_commonName lastpos) of
              None \<Rightarrow>
                commonName_loop am s name
                  (X509_NAME_get_index_by_NID name NID_commonName lastpos)
                  (decision, host, asked)
            | Some entry \<Rightarrow>
                (let host' = (if host = [] then (if server s then getHost s else getHost s)
                              else host)
                 in commonName_loop am s name
                      (X509_NAME_get_index_by_NID name NID_commonName lastpos)
                      (verify_host am host' (Some (entry_utf8 entry))
                         (int (length (entry_utf8 entry))),
                       host',
                       asked @ [VerifyHost host' (entry_utf8 entry)
                                  (int (length (entry_utf8 entry)))]))))
      else (decision, host, asked))"
  by pat_completeness auto
termination
  by (relation "measure (\<lambda>(am, s, name, lastpos, st). nat (int (length name) - lastpos))")
     (auto simp: X509_NAME_get_index_by_NID_range)

declare commonName_loop.simps [simp del]

text \<open>
  \<^verbatim>\<open>TSSLSocket::authorize\<close>, for the session \<open>sess\<close> of the socket. The result is
  the exception or the normal return, with the calls made on the access manager.
\<close>

definition authorize :: "TSSLSocket \<Rightarrow> SSL \<Rightarrow> (error + unit) \<times> query list" where
  "authorize s sess =
     (if verify_result sess \<noteq> X509_V_OK then
        (Inl (TSSLException (''SSL_get_verify_result(), '' @ verify_error_string sess)), [])
      else case peer_certificate sess of
        None \<Rightarrow>
          if verify_mode sess AND SSL_VERIFY_FAIL_IF_NO_PEER_CERT \<noteq> 0 then
            (Inl (TSSLException ''authorize: required certificate not present''), [])
          else if server s \<and> access s \<noteq> None then
            (Inl (TSSLException ''authorize: certificate required for authorization''), [])
          else (Inr (), [])
      | Some cert \<Rightarrow>
          (case access s of
             None \<Rightarrow> (Inr (), [])
           | Some am \<Rightarrow>
               (let sa = (case getpeername s of None \<Rightarrow> unspec_sockaddr | Some a \<Rightarrow> a);
                    decision = verify_addr am sa;
                    asked = [VerifyAddr sa]
                in if decision \<noteq> SKIP then
                     (if decision \<noteq> ALLOW then
                        (Inl (TSSLException ''authorize: access denied based on remote IP''),
                         asked)
                      else (Inr (), asked))
                   else
                     (case (case subject_alt_name cert of
                              None \<Rightarrow> (decision, [], asked)
                            | Some alternatives \<Rightarrow>
                                alternatives_loop am s sa alternatives (decision, [], asked)) of
                        (decision, host, asked) \<Rightarrow>
                          if decision \<noteq> SKIP then
                            (if decision \<noteq> ALLOW then
                               (Inl (TSSLException ''authorize: access denied''), asked)
                             else (Inr (), asked))
                          else
                            (case (case subject_name cert of
                                     None \<Rightarrow> (decision, host, asked)
                                   | Some name \<Rightarrow>
                                       commonName_loop am s name (- 1)
                                         (decision, host, asked)) of
                               (decision, host, asked) \<Rightarrow>
                                 if decision \<noteq> ALLOW then
                                   (Inl (TSSLException ''authorize: cannot authorize peer''),
                                    asked)
                                 else (Inr (), asked))))))"

subsection \<open>The engine and its diagnostics\<close>

text \<open>
  What a call of an engine primitive leaves behind: its return value, \<^verbatim>\<open>errno\<close>, the
  engine's error queue (the codes \<^verbatim>\<open>ERR_get_error\<close> will hand out, oldest first) and
  the category \<^verbatim>\<open>SSL_get_error\<close> reports for the return value.
\<close>

record io_result =
  rc :: "32 word"
  errno :: int
  err_queue :: "nat list"
  ssl_error :: int

text \<open>
  The engine and the platform, as far as the code consults them. \<open>SSL_read eng k num\<close>
  is the outcome of the \<open>k\<close>-th call of \<^verbatim>\<open>SSL_read\<close> within one \<^verbatim>\<open>read\<close> (counted
  from 0), \<open>SSL_write eng k num\<close> that of the \<open>k\<close>-th \<^verbatim>\<open>SSL_write\<close> within one
  \<^verbatim>\<open>write\<close>; \<open>SSL_new\<close> is \<open>None\<close> when \<^verbatim>\<open>SSL_new\<close> returns \<^verbatim>\<open>NULL\<close>, with
  \<open>SSL_new_errors\<close> in the queue.
\<close>

record engine =
  ERR_reason_error_string :: "nat \<Rightarrow> string option"
  strerror_s :: "int \<Rightarrow> string"
  SSL_new :: "SSL option"
  SSL_new_errors :: "nat list"
  SSL_accept :: io_result
  SSL_connect :: io_result
  SSL_read :: "nat \<Rightarrow> 32 word \<Rightarrow> io_result"
  SSL_write :: "nat \<Rightarrow> 32 word \<Rightarrow> io_result"
  SSL_CTX_use_certificate_chain_file :: "string \<Rightarrow> io_result"
  SSL_CTX_use_PrivateKey_file :: "string \<Rightarrow> io_result"

definition SSL_ERROR_SYSCALL :: int where
  "SSL_ERROR_SYSCALL = 5"

definition EINTR :: int where
  "EINTR = 4"

text \<open>\<^verbatim>\<open>ERR_get_error()\<close>: the oldest code, removed from the queue; 0 on an empty queue.\<close>

definition ERR_get_error :: "nat list \<Rightarrow> nat \<times> nat list" where
  "ERR_get_error q = (case q of [] \<Rightarrow> (0, []) | e # q' \<Rightarrow> (e, q'))"

text \<open>Decimal digits, for \<^verbatim>\<open>%lu\<close> and \<^verbatim>\<open>lexical_cast<string>\<close>.\<close>

fun string_of_nat :: "nat \<Rightarrow> string" where
  "string_of_nat n =
     (if n < 10 then [char_of (48 + n)]
      else string_of_nat (n div 10) @ [char_of (48 + n mod 10)])"

definition string_of_int :: "int \<Rightarrow> string" where
  "string_of_int i =
     (if i < 0 then CHR ''-'' # string_of_nat (nat (- i)) else string_of_nat (nat i))"

text \<open>
  The loop of \<^verbatim>\<open>buildErrors\<close>,
  \<^verbatim>\<open>while ((errorCode = ERR_get_error()) != 0)\<close>: the message so far and the queue,
  to the message and the queue that is left.
\<close>

fun buildErrors_loop :: "engine \<Rightarrow> string \<Rightarrow> nat list \<Rightarrow> string \<times> nat list" where
  "buildErrors_loop eng errors [] = (errors, [])"
| "buildErrors_loop eng errors (errorCode # q) =
     (if errorCode \<noteq> 0 then
        buildErrors_loop eng
          ((if errors \<noteq> [] then errors @ ''; '' else errors) @
           (case ERR_reason_error_string eng errorCode of
              None \<Rightarrow> ''SSL error # '' @ string_of_nat errorCode
            | Some reason \<Rightarrow> reason))
          q
      else (errors, q))"

text \<open>
  \<^verbatim>\<open>buildErrors(errors, errno_copy)\<close> on an empty \<^verbatim>\<open>errors\<close>, as every caller
  passes it: the message and the queue that is left.
\<close>

definition buildErrors :: "engine \<Rightarrow> nat list \<Rightarrow> int \<Rightarrow> string \<times> nat list" where
  "buildErrors eng q errno_copy =
     (case buildErrors_loop eng [] q of
        (errors, q') \<Rightarrow>
          (let errors1 = (if errors = [] then
                            (if errno_copy \<noteq> 0 then errors @ strerror_s eng errno_copy
                             else errors)
                          else errors);
               errors2 = (if errors1 = [] then ''error code: '' @ string_of_int errno_copy
                          else errors1)
           in (errors2, q')))"

subsection \<open>Handshake, read and write\<close>

text \<open>
  \<^verbatim>\<open>TSSLSocket::checkHandshake\<close>: the exception, or the socket with its session.
\<close>

definition checkHandshake :: "engine \<Rightarrow> TSSLSocket \<Rightarrow> error + TSSLSocket" where
  "checkHandshake eng s =
     (if \<not> TSocket_isOpen s then Inl (TTransportException NOT_OPEN [])
      else if ssl s \<noteq> None then Inr s
      else case SSL_new eng of
        None \<Rightarrow>
          Inl (TSSLException (''SSL_new: '' @ fst (buildErrors eng (SSL_new_errors eng) 0)))
      | Some sess \<Rightarrow>
          (let r = (if server s then SSL_accept eng else SSL_connect eng) in
           if sint (rc r) \<le> 0 then
             Inl (TSSLException
                    ((if server s then ''SSL_accept'' else ''SSL_connect'') @ '': '' @
                     fst (buildErrors eng (err_queue r) (errno r))))
           else case fst (authorize (s\<lparr>ssl := Some sess\<rparr>) sess) of
             Inl e \<Rightarrow> Inl e
           | Inr u \<Rightarrow> Inr (s\<lparr>ssl := Some sess\<rparr>)))"

text \<open>
  The loop of \<^verbatim>\<open>TSSLSocket::read\<close>,
  \<^verbatim>\<open>for (int32_t retries = 0; retries < maxRecvRetries_; retries++)\<close>, with the
  \<^verbatim>\<open>return bytes\<close> that follows it. \<^verbatim>\<open>ERR_get_error()\<close> is called only when the
  category is \<^verbatim>\<open>SSL_ERROR_SYSCALL\<close>, and takes one code from the queue.
\<close>

function read_loop :: "engine \<Rightarrow> 32 word \<Rightarrow> int \<Rightarrow> nat \<Rightarrow> 32 word \<Rightarrow> error + 32 word" where
  "read_loop eng len maxRetries retries bytes =
     (if int retries < maxRetries then
        (if 0 \<le> sint (rc (SSL_read eng retries len)) then
           Inr (rc (SSL_read eng retries len))
         else if ssl_error (SSL_read eng retries len) = SSL_ERROR_SYSCALL then
           (if fst (ERR_get_error (err_queue (SSL_read eng retries len))) = 0 \<and>
               errno (SSL_read eng retries len) = EINTR then
              read_loop eng len maxRetries (retries + 1) (rc (SSL_read eng retries len))
            else
              Inl (TSSLException
                     (''SSL_read: '' @
                      fst (buildErrors eng
                             (snd (ERR_get_error (err_queue (SSL_read eng retries len))))
                             (errno (SSL_read eng retries len))))))
         else
           Inl (TSSLException
                  (''SSL_read: '' @
                   fst (buildErrors eng (err_queue (SSL_read eng retries len))
                          (errno (SSL_read eng retries len))))))
      else Inr bytes)"
  by pat_completeness auto
termination
  by (relation "measure (\<lambda>(eng, len, maxRetries, retries, bytes). nat (maxRetries - int retries))")
     auto

declare read_loop.simps [simp del]

text \<open>\<^verbatim>\<open>TSSLSocket::read\<close>: the exception, or the value returned.\<close>

definition TSSLSocket_read :: "engine \<Rightarrow> TSSLSocket \<Rightarrow> 32 word \<Rightarrow> error + 32 word" where
  "TSSLSocket_read eng s len =
     (case checkHandshake eng s of
        Inl e \<Rightarrow> Inl e
      | Inr s' \<Rightarrow> read_loop eng len (maxRecvRetries s') 0 0)"

text \<open>
  The loop of \<^verbatim>\<open>TSSLSocket::write\<close>, \<^verbatim>\<open>while (written < len)\<close>, at the \<open>k\<close>-th call
  of \<^verbatim>\<open>SSL_write\<close>. \<open>sent\<close> collects the bytes the engine has taken: a call that
  returns \<open>bytes > 0\<close> has taken that many bytes from \<^verbatim>\<open>&buf[written]\<close>. The loop need not
  end for an engine that reports more than it was asked for, so the result is an
  \<open>option\<close>: \<open>None\<close> when the loop runs for ever.
\<close>

partial_function (option) write_loop ::
    "engine \<Rightarrow> string \<Rightarrow> 32 word \<Rightarrow> nat \<Rightarrow> 32 word \<Rightarrow> string \<Rightarrow> ((error + unit) \<times> string) option" where
  "write_loop eng buf len k written sent =
     (if written < len then
        (if sint (rc (SSL_write eng k (len - written))) \<le> 0 then
           Some (Inl (TSSLException
                        (''SSL_write: '' @
                         fst (buildErrors eng (err_queue (SSL_write eng k (len - written)))
                                (errno (SSL_write eng k (len - written)))))),
                 sent)
         else
           write_loop eng buf len (k + 1)
             (written + rc (SSL_write eng k (len - written)))
             (sent @ take (nat (sint (rc (SSL_write eng k (len - written)))))
                      (drop (unat written) buf)))
      else Some (Inr (), sent))"

text \<open>\<^verbatim>\<open>TSSLSocket::write\<close>, with the bytes the engine has taken.\<close>

definition TSSLSocket_write ::
    "engine \<Rightarrow> TSSLSocket \<Rightarrow> string \<Rightarrow> 32 word \<Rightarrow> ((error + unit) \<times> string) option" where
  "TSSLSocket_write eng s buf len =
     (case checkHandshake eng s of
        Inl e \<Rightarrow> Some (Inl e, [])
      | Inr s' \<Rightarrow> write_loop eng buf len 0 0 [])"

subsection \<open>The factory: engine lifecycle and key material\<close>

text \<open>
  The static members \<^verbatim>\<open>initialized\<close> and \<^verbatim>\<open>count_\<close>, whether the mutex array and the
  locking callbacks are in place, and the library calls made so far.
\<close>

datatype engine_action = LibraryInit | LibraryCleanup

record openssl_state =
  initialized :: bool
  count :: "64 word"
  mutexes :: bool
  callbacks :: bool
  actions :: "engine_action list"

definition initial_state :: openssl_state where
  "initial_state =
     \<lparr> initialized = False, count = 0, mutexes = False, callbacks = False, actions = [] \<rparr>"

text \<open>
  What \<^verbatim>\<open>new Mutex[::CRYPTO_num_locks()]\<close> does: it yields the array, or it throws
  \<^verbatim>\<open>std::bad_alloc\<close> (what \<^verbatim>\<open>new[]\<close> does when memory is exhausted), or it yields a
  null pointer (which only a non-throwing allocator does; the test
  \<^verbatim>\<open>mutexes == NULL\<close> that follows is for this case).
\<close>

datatype allocation = Allocated | AllocationThrows | AllocationNull

text \<open>
  \<^verbatim>\<open>initializeOpenSSL\<close>, with the outcome of the allocation of the mutex array. The
  flag is set before the allocation, so an exception leaves it set.
\<close>

definition initializeOpenSSL ::
    "openssl_state \<Rightarrow> allocation \<Rightarrow> (error + unit) \<times> openssl_state" where
  "initializeOpenSSL st alloc =
     (if initialized st then (Inr (), st)
      else case alloc of
        AllocationThrows \<Rightarrow>
          (Inl std_bad_alloc,
           st\<lparr>initialized := True, actions := actions st @ [LibraryInit]\<rparr>)
      | AllocationNull \<Rightarrow>
          (Inl (TTransportException INTERNAL_ERROR
                  ''initializeOpenSSL() failed, out of memory while creating mutex array''),
           st\<lparr>initialized := True, actions := actions st @ [LibraryInit]\<rparr>)
      | Allocated \<Rightarrow>
          (Inr (),
           st\<lparr>initialized := True, mutexes := True, callbacks := True,
              actions := actions st @ [LibraryInit]\<rparr>))"

definition cleanupOpenSSL :: "openssl_state \<Rightarrow> openssl_state" where
  "cleanupOpenSSL st =
     (if \<not> initialized st then st
      else st\<lparr>initialized := False, mutexes := False, callbacks := False,
              actions := actions st @ [LibraryCleanup]\<rparr>)"

text \<open>
  The constructor \<^verbatim>\<open>TSSLSocketFactory::TSSLSocketFactory()\<close>, under its guard.
  \<open>ctx_errors\<close> is \<open>None\<close> when \<^verbatim>\<open>SSL_CTX_new\<close> succeeds and the queue it leaves when
  it returns \<^verbatim>\<open>NULL\<close>. An exception leaves no factory behind.
\<close>

definition TSSLSocketFactory_new ::
    "engine \<Rightarrow> openssl_state \<Rightarrow> allocation \<Rightarrow> nat list option \<Rightarrow>
     (error + unit) \<times> openssl_state" where
  "TSSLSocketFactory_new eng st alloc ctx_errors =
     (case (if count st = 0 then initializeOpenSSL st alloc else (Inr (), st)) of
        (Inl e, st1) \<Rightarrow> (Inl e, st1)
      | (Inr u, st1) \<Rightarrow>
          (case ctx_errors of
             None \<Rightarrow> (Inr (), st1\<lparr>count := count st1 + 1\<rparr>)
           | Some q \<Rightarrow>
               (Inl (TSSLException (''SSL_CTX_new: '' @ fst (buildErrors eng q 0))),
                st1\<lparr>count := count st1 + 1\<rparr>)))"

text \<open>The destructor \<^verbatim>\<open>TSSLSocketFactory::~TSSLSocketFactory()\<close>.\<close>

definition TSSLSocketFactory_delete :: "openssl_state \<Rightarrow> openssl_state" where
  "TSSLSocketFactory_delete st =
     (if count st - 1 = 0 then cleanupOpenSSL (st\<lparr>count := count st - 1\<rparr>)
      else st\<lparr>count := count st - 1\<rparr>)"

text \<open>
  A sequence of constructions and destructions, run from a state and a number of
  factories alive. A destruction needs a factory that is alive: the run is \<open>None\<close>
  when there is none.
\<close>

datatype factory_event = Construct allocation "nat list option" | Destroy

fun run :: "engine \<Rightarrow> factory_event list \<Rightarrow> openssl_state \<times> nat \<Rightarrow> (openssl_state \<times> nat) option" where
  "run eng [] (st, alive) = Some (st, alive)"
| "run eng (Construct alloc ctx_errors # es) (st, alive) =
     (case TSSLSocketFactory_new eng st alloc ctx_errors of
        (Inl e, st') \<Rightarrow> run eng es (st', alive)
      | (Inr u, st') \<Rightarrow> run eng es (st', alive + 1))"
| "run eng (Destroy # es) (st, alive) =
     (if alive = 0 then None else run eng es (TSSLSocketFactory_delete st, alive - 1))"

text \<open>
  \<^verbatim>\<open>loadCertificate\<close> and \<^verbatim>\<open>loadPrivateKey\<close>; a \<^verbatim>\<open>NULL\<close> argument is \<open>None\<close>.
\<close>

definition loadCertificate :: "engine \<Rightarrow> string option \<Rightarrow> string option \<Rightarrow> error + unit" where
  "loadCertificate eng path format =
     (case (path, format) of
        (Some p, Some f) \<Rightarrow>
          if f = ''PEM'' then
            (if rc (SSL_CTX_use_certificate_chain_file eng p) = 0 then
               Inl (TSSLException
                      (''SSL_CTX_use_certificate_chain_file: '' @
                       fst (buildErrors eng
                              (err_queue (SSL_CTX_use_certificate_chain_file eng p))
                              (errno (SSL_CTX_use_certificate_chain_file eng p)))))
             else Inr ())
          else Inl (TSSLException (''Unsupported certificate format: '' @ f))
      | _ \<Rightarrow>
          Inl (TTransportException BAD_ARGS
                 ''loadCertificateChain: either <path> or <format> is NULL''))"

definition loadPrivateKey :: "engine \<Rightarrow> string option \<Rightarrow> string option \<Rightarrow> error + unit" where
  "loadPrivateKey eng path format =
     (case (path, format) of
        (Some p, Some f) \<Rightarrow>
          if f = ''PEM'' then
            (if rc (SSL_CTX_use_PrivateKey_file eng p) = 0 then
               Inl (TSSLException
                      (''SSL_CTX_use_PrivateKey_file: '' @
                       fst (buildErrors eng
                              (err_queue (SSL_CTX_use_PrivateKey_file eng p))
                              (errno (SSL_CTX_use_PrivateKey_file eng p)))))
             else Inr ())
          else Inr ()
      | _ \<Rightarrow>
          Inl (TTransportException BAD_ARGS
                 ''loadPrivateKey: either <path> or <format> is NULL''))"

subsection \<open>Notions of the specification\<close>

text \<open>
  The walk of the specification over the characters that are left of the hostname and
  of the pattern: equal characters (ASCII letters without case) advance both; otherwise
  a \<^verbatim>\<open>*\<close> of the pattern advances the hostname to its next \<^verbatim>\<open>.\<close> or to its end;
  any other difference fails; and both must end together.
\<close>

fun match_lists :: "string \<Rightarrow> string \<Rightarrow> bool" where
  "match_lists [] p = (p = [])"
| "match_lists (h # hs) [] = False"
| "match_lists (h # hs) (c # p) =
     (if uppercase c = uppercase h then match_lists hs p
      else if c = CHR ''*'' then match_lists (dropWhile (\<lambda>x. x \<noteq> CHR ''.'') (h # hs)) p
      else False)"

text \<open>
  An interrupted system call, as \<^verbatim>\<open>read\<close> recognises it: a negative result, the
  system-call category, an empty error queue and \<^verbatim>\<open>errno == EINTR\<close>.
\<close>

definition interrupted :: "io_result \<Rightarrow> bool" where
  "interrupted r \<longleftrightarrow>
     sint (rc r) < 0 \<and> ssl_error r = SSL_ERROR_SYSCALL \<and> err_queue r = [] \<and> errno r = EINTR"

text \<open>An event in which the allocation of the mutex array, if attempted, succeeds.\<close>

fun alloc_ok :: "factory_event \<Rightarrow> bool" where
  "alloc_ok (Construct alloc ctx_errors) = (alloc = Allocated)"
| "alloc_ok Destroy = True"

text \<open>The library calls in which initialization and cleanup take turns.\<close>

definition alternating :: "nat \<Rightarrow> engine_action list" where
  "alternating n = map (\<lambda>i. if even i then LibraryInit else LibraryCleanup) [0..<n]"

text \<open>
  The invariant of the lifecycle, for a state, the number of factories alive and a
  bound on the counter.
\<close>

definition lifecycle_inv :: "openssl_state \<Rightarrow> nat \<Rightarrow> nat \<Rightarrow> bool" where
  "lifecycle_inv st alive n \<longleftrightarrow>
     initialized st = (count st \<noteq> 0) \<and>
     alive \<le> unat (count st) \<and> unat (count st) \<le> n \<and>
     mutexes st = initialized st \<and> callbacks st = initialized st \<and>
     actions st = alternating (length (actions st)) \<and>
     initialized st = odd (length (actions st))"

text \<open>The decision of the manager for one call.\<close>

definition ask :: "AccessManager \<Rightarrow> query \<Rightarrow> Decision" where
  "ask am q =
     (case q of
        VerifyAddr sa \<Rightarrow> verify_addr am sa
      | VerifyHost host pattern sz \<Rightarrow> verify_host am host (Some pattern) sz
      | VerifyData sa pattern sz \<Rightarrow> verify_data am sa pattern sz)"

text \<open>
  Evaluation of a list of identity sources in order, short-circuiting on the first
  decision that is not \<open>SKIP\<close>: the final decision and the sources consulted.
\<close>

fun consult :: "AccessManager \<Rightarrow> query list \<Rightarrow> Decision \<times> query list" where
  "consult am [] = (SKIP, [])"
| "consult am (q # qs) =
     (if ask am q \<noteq> SKIP then (ask am q, [q])
      else case consult am qs of (d, asked) \<Rightarrow> (d, q # asked))"

text \<open>The peer's raw network address (unspecified when it cannot be read).\<close>

definition peer_sockaddr :: "TSSLSocket \<Rightarrow> sockaddr_storage" where
  "peer_sockaddr s = (case getpeername s of None \<Rightarrow> unspec_sockaddr | Some a \<Rightarrow> a)"

text \<open>
  The role-appropriate hostname: the peer's hostname for a server, the configured
  target hostname for a client.
\<close>

definition role_host :: "TSSLSocket \<Rightarrow> string" where
  "role_host s = (if server s then getPeerHost s else getHost s)"

definition alt_names :: "X509 \<Rightarrow> GENERAL_NAME option list" where
  "alt_names cert = (case subject_alt_name cert of None \<Rightarrow> [] | Some names \<Rightarrow> names)"

definition subject_entries :: "X509 \<Rightarrow> X509_NAME_ENTRY list" where
  "subject_entries cert = (case subject_name cert of None \<Rightarrow> [] | Some entries \<Rightarrow> entries)"

text \<open>
  The sources of the alternate names, in list order: a DNS entry asks about the
  hostname \<open>h\<close>, an address entry about the raw address; other entries ask nothing.
\<close>

fun alt_queries :: "string \<Rightarrow> sockaddr_storage \<Rightarrow> GENERAL_NAME option list \<Rightarrow> query list" where
  "alt_queries h sa [] = []"
| "alt_queries h sa (None # names) = alt_queries h sa names"
| "alt_queries h sa (Some n # names) =
     (case gn_type n of
        GEN_DNS \<Rightarrow> VerifyHost h (ia5 n) (int (length (ia5 n))) # alt_queries h sa names
      | GEN_IPADD \<Rightarrow> VerifyData sa (ia5 n) (int (length (ia5 n))) # alt_queries h sa names
      | GEN_OTHER t \<Rightarrow> alt_queries h sa names)"

definition has_dns :: "GENERAL_NAME option list \<Rightarrow> bool" where
  "has_dns names =
     list_ex (\<lambda>name. case name of None \<Rightarrow> False | Some n \<Rightarrow> gn_type n = GEN_DNS) names"

text \<open>The sources of the subject's common-name entries, in certificate order.\<close>

definition cn_queries :: "string \<Rightarrow> X509_NAME_ENTRY list \<Rightarrow> query list" where
  "cn_queries h entries =
     map (\<lambda>e. VerifyHost h (entry_utf8 e) (int (length (entry_utf8 e))))
       (filter (\<lambda>e. entry_nid e = NID_commonName) entries)"

text \<open>
  The hostname of the common-name step, as the code resolves it: the hostname that the
  alternate-name step resolved, if it resolved one that is not empty, and otherwise
  \<^verbatim>\<open>getHost()\<close> in both roles.
\<close>

definition cn_host :: "TSSLSocket \<Rightarrow> X509 \<Rightarrow> string" where
  "cn_host s cert =
     (if has_dns (alt_names cert) \<and> role_host s \<noteq> [] then role_host s else getHost s)"

text \<open>
  The identity sources of one authorization pass in their fixed order: the raw peer
  address, the alternate names, the common names.
\<close>

definition identity_sources :: "TSSLSocket \<Rightarrow> X509 \<Rightarrow> query list" where
  "identity_sources s cert =
     VerifyAddr (peer_sockaddr s) #
     alt_queries (role_host s) (peer_sockaddr s) (alt_names cert) @
     cn_queries (cn_host s cert) (subject_entries cert)"

text \<open>
  The calls of \<^verbatim>\<open>SSL_write\<close> that one \<^verbatim>\<open>write(buf, len)\<close> makes, read off the engine:
  \<open>written_at eng len k\<close> is the count \<^verbatim>\<open>written\<close> before the \<open>k\<close>-th call, \<open>chunk\<close>
  is the outcome of that call (it is asked for \<^verbatim>\<open>len - written\<close> bytes), and
  \<open>chunks_accepted eng len K\<close> says that the first \<open>K\<close> calls are made and each
  returns a positive count.
\<close>

fun written_at :: "engine \<Rightarrow> 32 word \<Rightarrow> nat \<Rightarrow> 32 word" where
  "written_at eng len 0 = 0"
| "written_at eng len (Suc k) =
     written_at eng len k + rc (SSL_write eng k (len - written_at eng len k))"

definition chunk :: "engine \<Rightarrow> 32 word \<Rightarrow> nat \<Rightarrow> io_result" where
  "chunk eng len k = SSL_write eng k (len - written_at eng len k)"

definition chunks_accepted :: "engine \<Rightarrow> 32 word \<Rightarrow> nat \<Rightarrow> bool" where
  "chunks_accepted eng len K \<longleftrightarrow>
     (\<forall>k<K. written_at eng len k < len \<and> 0 < sint (rc (chunk eng len k)))"

subsection \<open>Concrete sockets and engines\<close>

text \<open>Inputs at which the theorems below are instantiated.\<close>

definition example_session :: SSL where
  "example_session =
     \<lparr> verify_result = 0, verify_error_string = ''ok'', peer_certificate = None,
       verify_mode = 0 \<rparr>"

definition connected_socket :: TSSLSocket where
  "connected_socket =
     \<lparr> TSocket_isOpen = True, server = False, ssl = Some example_session, access = None,
       getHost = ''svc.example.com'', getPeerHost = [], getpeername = None,
       maxRecvRetries = 5 \<rparr>"

definition interrupted_result :: io_result where
  "interrupted_result =
     \<lparr> rc = - 1, errno = EINTR, err_queue = [], ssl_error = SSL_ERROR_SYSCALL \<rparr>"

definition ok_result :: "32 word \<Rightarrow> io_result" where
  "ok_result n = \<lparr> rc = n, errno = 0, err_queue = [], ssl_error = 0 \<rparr>"

definition example_engine :: "(nat \<Rightarrow> 32 word \<Rightarrow> io_result) \<Rightarrow> (nat \<Rightarrow> 32 word \<Rightarrow> io_result) \<Rightarrow> engine" where
  "example_engine rd wr =
     \<lparr> ERR_reason_error_string = (\<lambda>c. None), strerror_s = (\<lambda>e. ''strerror''),
       SSL_new = Some example_session, SSL_new_errors = [],
       SSL_accept = ok_result 1, SSL_connect = ok_result 1,
       SSL_read = rd, SSL_write = wr,
       SSL_CTX_use_certificate_chain_file = (\<lambda>p. ok_result 1),
       SSL_CTX_use_PrivateKey_file = (\<lambda>p. ok_result 1) \<rparr>"

definition two_factories_one_destroyed :: "factory_event list" where
  "two_factories_one_destroyed = [Construct Allocated None, Construct Allocated None, Destroy]"

definition loopback_peer :: sockaddr_storage where
  "loopback_peer =
     \<lparr> ss_family = AF_INET,
       sin_addr = [CHR 0x7F, CHR 0x00, CHR 0x00, CHR 0x01],
       sin6_addr = replicate 16 (CHR 0x00) \<rparr>"

definition chunked_writer :: "nat \<Rightarrow> 32 word \<Rightarrow> io_result" where
  "chunked_writer k n = ok_result (if 3 < sint n then 3 else n)"

definition chunking_engine :: engine where
  "chunking_engine = example_engine (\<lambda>k n. ok_result 0) chunked_writer"

definition verified_session :: "X509 \<Rightarrow> SSL" where
  "verified_session cert =
     \<lparr> verify_result = X509_V_OK, verify_error_string = ''ok'',
       peer_certificate = Some cert, verify_mode = 0x07 \<rparr>"

definition wildcard_certificate :: X509 where
  "wildcard_certificate =
     \<lparr> subject_alt_name = Some [Some \<lparr> gn_type = GEN_DNS, ia5 = ''*.example.com'' \<rparr>],
       subject_name = Some [\<lparr> entry_nid = NID_commonName, entry_utf8 = ''example.com'' \<rparr>] \<rparr>"

definition client_socket :: TSSLSocket where
  "client_socket =
     \<lparr> TSocket_isOpen = True, server = False, ssl = Some (verified_session wildcard_certificate),
       access = Some DefaultClientAccessManager,
       getHost = ''svc.example.com'', getPeerHost = [], getpeername = None,
       maxRecvRetries = 5 \<rparr>"

definition client_certificate :: X509 where
  "client_certificate =
     \<lparr> subject_alt_name = None,
       subject_name = Some [\<lparr> entry_nid = NID_other 17, entry_utf8 = ''Example Org'' \<rparr>,
                           \<lparr> entry_nid = NID_commonName, entry_utf8 = ''client.example.com'' \<rparr>] \<rparr>"

definition server_socket :: TSSLSocket where
  "server_socket =
     \<lparr> TSocket_isOpen = True, server = True, ssl = Some (verified_session client_certificate),
       access = Some DefaultClientAccessManager,
       getHost = [], getPeerHost = ''client.example.com'', getpeername = None,
       maxRecvRetries = 5 \<rparr>"

definition idle_engine :: engine where
  "idle_engine = example_engine (\<lambda>k n. ok_result 0) (\<lambda>k n. ok_result n)"

definition failing_result :: io_result where
  "failing_result = \<lparr> rc = - 1, errno = 5, err_queue = [7], ssl_error = SSL_ERROR_SYSCALL \<rparr>"

definition failing_engine :: engine where
  "failing_engine = example_engine (\<lambda>k n. failing_result) (\<lambda>k n. failing_result)"

section \<open>Properties\<close>

subsection \<open>Reading\<close>

lemma sint_nonneg_uint:
  fixes w :: "32 word"
  assumes "0 \<le> sint w"
  shows "uint w = sint w"
proof -
  have "sint w < 2 ^ 32"
    using sint_lt [of w] by simp
  then have "take_bit 32 (sint w) = sint w"
    using assms by (simp add: take_bit_int_eq_self)
  then show ?thesis
    using uint_sint [of w] by simp
qed

lemma sint_neg_big:
  fixes w :: "32 word"
  assumes "sint w < 0"
  shows "2 ^ 31 \<le> unat w"
proof -
  have ge: "- (2 ^ 31) \<le> sint w"
    using sint_ge [of w] by simp
  have "(sint w + 2 ^ 32) mod 2 ^ 32 = sint w + 2 ^ 32"
    using assms ge by (intro mod_pos_pos_trivial) simp_all
  then have "sint w mod 2 ^ 32 = sint w + 2 ^ 32"
    by simp
  then have "uint w = sint w + 2 ^ 32"
    using uint_sint [of w] by (simp add: take_bit_eq_mod)
  then have "(2147483648 :: int) \<le> uint w"
    using ge by simp
  then have "(2147483648 :: int) \<le> int (unat w)"
    by (simp only: of_nat_unat)
  then have "(2147483648 :: nat) \<le> unat w"
    by linarith
  then show ?thesis
    by simp
qed

lemma buildErrors_loop_drains: "0 \<notin> set q \<Longrightarrow> snd (buildErrors_loop eng errors q) = []"
  by (induction q arbitrary: errors) auto

lemma buildErrors_drains: "0 \<notin> set q \<Longrightarrow> snd (buildErrors eng q e) = []"
  using buildErrors_loop_drains [of q eng "[]"]
  by (cases "buildErrors_loop eng [] q") (simp add: buildErrors_def Let_def)

lemma read_loop_interrupted:
  assumes "\<forall>j. k0 \<le> j \<and> j < k \<longrightarrow> interrupted (SSL_read eng j len)" "k0 \<le> k" "int k \<le> m"
  shows "read_loop eng len m k0 b = read_loop eng len m k (if k0 = k then b else rc (SSL_read eng (k - 1) len))"
  using assms
proof (induction "k - k0" arbitrary: k0 b)
  case 0
  then show ?case by simp
next
  case (Suc d)
  then have lt: "k0 < k" by simp
  with Suc.prems have i: "interrupted (SSL_read eng k0 len)" by simp
  have "read_loop eng len m k0 b = read_loop eng len m (k0 + 1) (rc (SSL_read eng k0 len))"
    using i lt Suc.prems(3)
    by (subst read_loop.simps) (simp add: interrupted_def ERR_get_error_def)
  also have "\<dots> = read_loop eng len m k (if k0 + 1 = k then rc (SSL_read eng k0 len) else rc (SSL_read eng (k - 1) len))"
    using Suc.hyps(2) Suc.prems lt
    by (intro Suc.hyps(1)) auto
  also have "\<dots> = read_loop eng len m k (if k0 = k then b else rc (SSL_read eng (k - 1) len))"
    using lt by auto
  finally show ?case .
qed

lemma read_loop_at:
  assumes "int k < m" "\<forall>j<k. interrupted (SSL_read eng j len)"
    and "0 \<notin> set (err_queue (SSL_read eng k len))"
  shows "read_loop eng len m 0 0 =
     (if 0 \<le> sint (rc (SSL_read eng k len)) then Inr (rc (SSL_read eng k len))
      else if interrupted (SSL_read eng k len) then
        read_loop eng len m (k + 1) (rc (SSL_read eng k len))
      else Inl (TSSLException (''SSL_read: '' @
             fst (buildErrors eng
                    (if ssl_error (SSL_read eng k len) = SSL_ERROR_SYSCALL
                     then tl (err_queue (SSL_read eng k len))
                     else err_queue (SSL_read eng k len))
                    (errno (SSL_read eng k len))))))"
proof -
  let ?r = "SSL_read eng k len"
  have "read_loop eng len m 0 0 = read_loop eng len m k (if 0 = k then 0 else rc (SSL_read eng (k - 1) len))"
    using assms(1,2) by (intro read_loop_interrupted) auto
  also have "\<dots> =
     (if 0 \<le> sint (rc ?r) then Inr (rc ?r)
      else if interrupted ?r then read_loop eng len m (k + 1) (rc ?r)
      else Inl (TSSLException (''SSL_read: '' @
             fst (buildErrors eng
                    (if ssl_error ?r = SSL_ERROR_SYSCALL then tl (err_queue ?r) else err_queue ?r)
                    (errno ?r)))))"
    using assms(1,3)
    by (subst read_loop.simps)
       (cases "err_queue ?r"; auto simp: interrupted_def ERR_get_error_def)
  finally show ?thesis .
qed

text \<open>
  The retry logic of \<^verbatim>\<open>read\<close>. Let the handshake be done, the attempts before the
  \<open>k\<close>-th all be interrupted system calls, and the \<open>k\<close>-th attempt be within the retry
  bound. Then \<^verbatim>\<open>read\<close> is decided at that attempt: a non-negative result (0 included)
  is returned as the byte count; a negative result is retried, with the next attempt,
  only when it is an interrupted system call (system-call category, empty queue,
  \<^verbatim>\<open>EINTR\<close>); any other negative result raises there. The message of the exception is
  built from the queue as the probe \<^verbatim>\<open>ERR_get_error()\<close> has left it: in the
  system-call category, without its first code.
\<close>

theorem read_retries_only_when_interrupted:
  assumes "checkHandshake eng s = Inr s'"
    and "int k < maxRecvRetries s'"
    and "\<forall>j<k. interrupted (SSL_read eng j len)"
    and "0 \<notin> set (err_queue (SSL_read eng k len))"
  shows "TSSLSocket_read eng s len =
     (if 0 \<le> sint (rc (SSL_read eng k len)) then Inr (rc (SSL_read eng k len))
      else if interrupted (SSL_read eng k len) then
        read_loop eng len (maxRecvRetries s') (k + 1) (rc (SSL_read eng k len))
      else Inl (TSSLException (''SSL_read: '' @
             fst (buildErrors eng
                    (if ssl_error (SSL_read eng k len) = SSL_ERROR_SYSCALL
                     then tl (err_queue (SSL_read eng k len))
                     else err_queue (SSL_read eng k len))
                    (errno (SSL_read eng k len))))))
   \<and> snd (buildErrors eng
            (if ssl_error (SSL_read eng k len) = SSL_ERROR_SYSCALL
             then tl (err_queue (SSL_read eng k len))
             else err_queue (SSL_read eng k len))
            (errno (SSL_read eng k len))) = []
   \<and> (if 0 \<le> sint (rc (SSL_read eng k len))
       then uint (rc (SSL_read eng k len)) = sint (rc (SSL_read eng k len))
       else True)"
proof -
  have "TSSLSocket_read eng s len = read_loop eng len (maxRecvRetries s') 0 0"
    using assms(1) by (simp add: TSSLSocket_read_def)
  moreover have "0 \<notin> set (tl (err_queue (SSL_read eng k len)))"
    using assms(4) by (cases "err_queue (SSL_read eng k len)") auto
  ultimately show ?thesis
    using read_loop_at [OF assms(2,3,4)] assms(4)
    by (simp add: buildErrors_drains sint_nonneg_uint)
qed

theorem read_retries_only_when_interrupted_witness:
  "TSSLSocket_read
     (example_engine (\<lambda>k n. if k < 2 then interrupted_result else ok_result 7) (\<lambda>k n. ok_result n))
     connected_socket 16 = Inr 7"
proof -
  let ?eng = "example_engine (\<lambda>k n. if k < 2 then interrupted_result else ok_result 7) (\<lambda>k n. ok_result n)"
  have h1: "checkHandshake ?eng connected_socket = Inr connected_socket"
    by (simp add: checkHandshake_def connected_socket_def)
  have h2: "int 2 < maxRecvRetries connected_socket"
    by (simp add: connected_socket_def)
  have h3: "\<forall>j<2. interrupted (SSL_read ?eng j 16)"
    by (simp add: example_engine_def interrupted_def interrupted_result_def)
  have h4: "0 \<notin> set (err_queue (SSL_read ?eng 2 16))"
    by (simp add: example_engine_def ok_result_def)
  show ?thesis
    using read_retries_only_when_interrupted [OF h1 h2 h3 h4]
    by (simp add: example_engine_def ok_result_def)
qed

text \<open>
  Claim C5 (fails on the code). An attempt of \<^verbatim>\<open>SSL_read\<close> that returns \<open>-1\<close> in the
  system-call category with \<^verbatim>\<open>errno = EIO\<close> and the code 7 in the queue: \<^verbatim>\<open>read\<close>
  raises at once, as the claim says, but the probe \<^verbatim>\<open>ERR_get_error() == 0\<close> has taken
  the code from the queue before \<^verbatim>\<open>buildErrors\<close> reads it, so the exception carries
  the text for \<^verbatim>\<open>errno\<close> and not the diagnostic of the engine. \<^verbatim>\<open>buildErrors\<close> on the
  queue as \<^verbatim>\<open>SSL_read\<close> left it yields the diagnostic, and \<^verbatim>\<open>write\<close>, which hands
  the whole queue over, raises with it for the same outcome of \<^verbatim>\<open>SSL_write\<close>.
\<close>

theorem read_loses_first_diagnostic:
  "TSSLSocket_read failing_engine connected_socket 16 = Inl (TSSLException ''SSL_read: strerror'')
   \<and> fst (buildErrors failing_engine (err_queue failing_result) (errno failing_result)) =
       ''SSL error # 7''
   \<and> TSSLSocket_write failing_engine connected_socket ''hello'' 5 =
       Some (Inl (TSSLException ''SSL_write: SSL error # 7''), [])"
proof -
  have h: "checkHandshake failing_engine connected_socket = Inr connected_socket"
    by (simp add: checkHandshake_def connected_socket_def)
  have r: "\<And>k n. SSL_read failing_engine k n = failing_result"
    and w: "\<And>k n. SSL_write failing_engine k n = failing_result"
    and e: "ERR_reason_error_string failing_engine = (\<lambda>c. None)"
    and s: "strerror_s failing_engine = (\<lambda>e. ''strerror'')"
    by (simp_all add: failing_engine_def example_engine_def)
  have d: "string_of_nat 7 = ''7''"
    by (simp add: char_of_def bit_0)
  have b1: "fst (buildErrors failing_engine [7] 5) = ''SSL error # 7''"
    by (simp add: buildErrors_def e d del: string_of_nat.simps)
  have b0: "fst (buildErrors failing_engine [] 5) = ''strerror''"
    by (simp add: buildErrors_def s)
  have a: "TSSLSocket_read failing_engine connected_socket 16 =
           Inl (TSSLException ''SSL_read: strerror'')"
    unfolding TSSLSocket_read_def h
    by (subst read_loop.simps)
       (simp add: r failing_result_def connected_socket_def ERR_get_error_def b0 EINTR_def)
  have b: "fst (buildErrors failing_engine (err_queue failing_result) (errno failing_result)) =
       ''SSL error # 7''"
    using b1 by (simp add: failing_result_def)
  have c: "TSSLSocket_write failing_engine connected_socket ''hello'' 5 =
       Some (Inl (TSSLException ''SSL_write: SSL error # 7''), [])"
    unfolding TSSLSocket_write_def h
    by (subst write_loop.simps) (simp add: w failing_result_def b1)
  from a b c show ?thesis
    by (intro conjI)
qed

text \<open>
  Claim C10. When every attempt within the (positive) retry bound is an interrupted
  system call, \<^verbatim>\<open>read\<close> does not raise: it returns the last negative result of the
  engine as an unsigned 32-bit count, a value of at least \<open>2^31\<close>. The witness is such
  an execution, with five attempts that return \<open>-1\<close>.
\<close>

theorem read_exhausted_retries_returns_unsigned:
  assumes "checkHandshake eng s = Inr s'"
    and "0 < maxRecvRetries s'"
    and "\<forall>k. int k < maxRecvRetries s' \<longrightarrow> interrupted (SSL_read eng k len)"
  shows "TSSLSocket_read eng s len = Inr (rc (SSL_read eng (nat (maxRecvRetries s') - 1) len))
    \<and> sint (rc (SSL_read eng (nat (maxRecvRetries s') - 1) len)) < 0
    \<and> 2 ^ 31 \<le> unat (rc (SSL_read eng (nat (maxRecvRetries s') - 1) len))"
proof -
  let ?m = "maxRecvRetries s'"
  let ?k = "nat ?m"
  have i: "interrupted (SSL_read eng (?k - 1) len)"
    using assms(2,3) by simp
  have "TSSLSocket_read eng s len = read_loop eng len ?m 0 0"
    using assms(1) by (simp add: TSSLSocket_read_def)
  also have "\<dots> = read_loop eng len ?m ?k (if 0 = ?k then 0 else rc (SSL_read eng (?k - 1) len))"
    using assms(2,3) by (intro read_loop_interrupted) auto
  also have "\<dots> = Inr (rc (SSL_read eng (?k - 1) len))"
    using assms(2) by (subst read_loop.simps) simp
  finally show ?thesis
    using i sint_neg_big [of "rc (SSL_read eng (?k - 1) len)"]
    by (simp add: interrupted_def)
qed

theorem read_exhausted_retries_returns_unsigned_witness:
  "TSSLSocket_read (example_engine (\<lambda>k n. interrupted_result) (\<lambda>k n. ok_result n))
     connected_socket 16 = Inr 4294967295"
proof -
  let ?eng = "example_engine (\<lambda>k n. interrupted_result) (\<lambda>k n. ok_result n)"
  have h1: "checkHandshake ?eng connected_socket = Inr connected_socket"
    by (simp add: checkHandshake_def connected_socket_def)
  have h2: "0 < maxRecvRetries connected_socket"
    by (simp add: connected_socket_def)
  have h3: "\<forall>k. int k < maxRecvRetries connected_socket \<longrightarrow> interrupted (SSL_read ?eng k 16)"
    by (simp add: example_engine_def interrupted_def interrupted_result_def)
  show ?thesis
    using read_exhausted_retries_returns_unsigned [OF h1 h2 h3]
    by (simp add: example_engine_def interrupted_result_def)
qed

subsection \<open>Writing\<close>

lemma unat_of_nonneg_sint:
  fixes w :: "32 word"
  assumes "0 \<le> sint w"
  shows "unat w = nat (sint w)"
  using sint_nonneg_uint [OF assms] by (simp add: unat_eq_nat_uint)

lemma write_chunk_fits:
  fixes len written b :: "32 word"
  assumes "written < len" "0 < sint b" "sint b \<le> sint (len - written)"
  shows "unat (written + b) = unat written + unat b"
    and "0 < unat b"
    and "unat written + unat b \<le> unat len"
    and "written + b \<le> len"
proof -
  have wl: "written \<le> len" using assms(1) by simp
  have d: "unat (len - written) = unat len - unat written"
    using wl by (rule unat_sub)
  have lw: "unat written < unat len"
    using assms(1) by (simp add: word_less_nat_alt)
  have pb: "0 \<le> sint b" using assms(2) by simp
  have pd: "0 \<le> sint (len - written)" using assms(2,3) by simp
  have ub: "unat b = nat (sint b)" using pb by (rule unat_of_nonneg_sint)
  have ud: "unat (len - written) = nat (sint (len - written))"
    using pd by (rule unat_of_nonneg_sint)
  have le: "unat b \<le> unat len - unat written"
    using assms(3) ub ud d by simp
  show p: "0 < unat b" using assms(2) ub by simp
  show s: "unat written + unat b \<le> unat len" using le lw by simp
  have "unat len < 2 ^ LENGTH(32)" by (rule unsigned_less)
  then have "unat written + unat b < 2 ^ LENGTH(32)" using s by simp
  then show a: "unat (written + b) = unat written + unat b"
    by (simp only: unat_add_lem [THEN iffD1])
  show "written + b \<le> len"
    using a s by (simp add: word_le_nat_alt)
qed

lemma chunks_accepted_Suc:
  "chunks_accepted eng len (Suc K) \<longleftrightarrow>
     chunks_accepted eng len K \<and> written_at eng len K < len \<and> 0 < sint (rc (chunk eng len K))"
  by (auto simp: chunks_accepted_def less_Suc_eq)

lemma write_loop_chunks:
  assumes "\<forall>k n. 0 < sint (rc (SSL_write eng k n)) \<longrightarrow> sint (rc (SSL_write eng k n)) \<le> sint n"
    and "chunks_accepted eng len K"
  shows "write_loop eng buf len 0 0 [] =
           write_loop eng buf len K (written_at eng len K) (take (unat (written_at eng len K)) buf)
    \<and> written_at eng len K \<le> len
    \<and> unat (written_at eng len K) = (\<Sum>k<K. unat (rc (chunk eng len k)))"
  using assms(2)
proof (induction K)
  case 0
  then show ?case by simp
next
  case (Suc K)
  then have acc: "chunks_accepted eng len K"
    and lt: "written_at eng len K < len"
    and pos: "0 < sint (rc (chunk eng len K))"
    by (simp_all add: chunks_accepted_Suc)
  let ?w = "written_at eng len K"
  let ?b = "rc (chunk eng len K)"
  have le: "sint ?b \<le> sint (len - ?w)"
    using assms(1) pos by (simp add: chunk_def)
  note fits = write_chunk_fits [OF lt pos le]
  note ih = Suc.IH [OF acc]
  have ub: "unat ?b = nat (sint ?b)"
    using pos by (intro unat_of_nonneg_sint) simp
  have w': "written_at eng len (Suc K) = ?w + ?b"
    by (simp add: chunk_def)
  have sent: "take (unat ?w) buf @ take (nat (sint ?b)) (drop (unat ?w) buf) =
              take (unat (?w + ?b)) buf"
    unfolding fits(1) ub [symmetric] by (simp add: take_add)
  have "write_loop eng buf len K ?w (take (unat ?w) buf) =
        write_loop eng buf len (K + 1) (?w + ?b)
          (take (unat ?w) buf @ take (nat (sint ?b)) (drop (unat ?w) buf))"
    using lt pos by (subst write_loop.simps) (simp add: chunk_def)
  then have step: "write_loop eng buf len K ?w (take (unat ?w) buf) =
        write_loop eng buf len (Suc K) (written_at eng len (Suc K))
          (take (unat (written_at eng len (Suc K))) buf)"
    unfolding sent w' by simp
  have a: "write_loop eng buf len 0 0 [] =
        write_loop eng buf len (Suc K) (written_at eng len (Suc K))
          (take (unat (written_at eng len (Suc K))) buf)"
    using ih step by simp
  have b: "written_at eng len (Suc K) \<le> len"
    unfolding w' by (rule fits(4))
  have c: "unat (written_at eng len (Suc K)) = (\<Sum>k<Suc K. unat (rc (chunk eng len k)))"
    unfolding w' fits(1) using ih by simp
  from a b c show ?case
    by (intro conjI)
qed

lemma chunks_stop:
  assumes "\<forall>k n. 0 < sint (rc (SSL_write eng k n)) \<longrightarrow> sint (rc (SSL_write eng k n)) \<le> sint n"
    and "chunks_accepted eng len k"
  shows "\<exists>K. chunks_accepted eng len K \<and>
           (written_at eng len K = len \<or>
            written_at eng len K < len \<and> sint (rc (chunk eng len K)) \<le> 0)"
  using assms(2)
proof (induction "unat len - unat (written_at eng len k)" arbitrary: k rule: less_induct)
  case less
  let ?w = "written_at eng len k"
  let ?b = "rc (chunk eng len k)"
  have wl: "?w \<le> len"
    using write_loop_chunks [OF assms(1) less.prems, of "[]"] by simp
  show ?case
  proof (cases "?w < len \<and> 0 < sint ?b")
    case False
    then have "?w = len \<or> ?w < len \<and> sint ?b \<le> 0"
      using wl by auto
    with less.prems show ?thesis by blast
  next
    case True
    then have acc: "chunks_accepted eng len (Suc k)"
      using less.prems by (simp add: chunks_accepted_Suc)
    have le: "sint ?b \<le> sint (len - ?w)"
      using assms(1) True by (simp add: chunk_def)
    note fits = write_chunk_fits [OF conjunct1 [OF True] conjunct2 [OF True] le]
    have w': "written_at eng len (Suc k) = ?w + ?b"
      by (simp add: chunk_def)
    have "unat len - unat (written_at eng len (Suc k)) < unat len - unat ?w"
      unfolding w' fits(1) using fits(2,3) by simp
    then show ?thesis
      using acc by (rule less.hyps)
  qed
qed

text \<open>
  Claim C6. Let the handshake be done, the engine never report more bytes than it was
  asked for, and the buffer hold \<open>len\<close> bytes. Then \<^verbatim>\<open>write(buf, len)\<close> ends, after
  some number \<open>K\<close> of calls of \<^verbatim>\<open>SSL_write\<close> that each returned a positive count. If
  those counts add up to \<open>len\<close>, it returns normally and the engine has taken exactly
  the \<open>len\<close> bytes of the buffer, in order, over the \<open>K\<close> partial writes. If instead
  the next call, with fewer than \<open>len\<close> bytes taken, returns zero or a negative count,
  \<^verbatim>\<open>write\<close> raises with the message built from the queue that this call left (the
  queue is then empty, its codes not being 0), and makes no further call. It returns
  normally in no other case.
\<close>

theorem write_hands_over_exactly_len_bytes:
  assumes "checkHandshake eng s = Inr s'"
    and "\<forall>k n. 0 < sint (rc (SSL_write eng k n)) \<longrightarrow> sint (rc (SSL_write eng k n)) \<le> sint n"
    and "unat len \<le> length buf"
  shows "(\<exists>K. chunks_accepted eng len K \<and>
            (written_at eng len K = len \<or>
             written_at eng len K < len \<and> sint (rc (chunk eng len K)) \<le> 0))
    \<and> (chunks_accepted eng len K \<and> written_at eng len K = len \<longrightarrow>
         TSSLSocket_write eng s buf len = Some (Inr (), take (unat len) buf)
         \<and> length (take (unat len) buf) = unat len
         \<and> unat len = (\<Sum>k<K. unat (rc (chunk eng len k))))
    \<and> (chunks_accepted eng len K \<and> written_at eng len K < len \<and>
           sint (rc (chunk eng len K)) \<le> 0 \<longrightarrow>
         TSSLSocket_write eng s buf len =
           Some (Inl (TSSLException (''SSL_write: '' @
                   fst (buildErrors eng (err_queue (chunk eng len K))
                          (errno (chunk eng len K))))),
                 take (unat (written_at eng len K)) buf)
         \<and> length (take (unat (written_at eng len K)) buf) < unat len)
    \<and> (0 \<notin> set (err_queue (chunk eng len K)) \<longrightarrow>
         snd (buildErrors eng (err_queue (chunk eng len K)) (errno (chunk eng len K))) = [])
    \<and> (\<exists>r. TSSLSocket_write eng s buf len = Some r)
    \<and> (\<forall>sent. TSSLSocket_write eng s buf len = Some (Inr (), sent) \<longrightarrow>
           sent = take (unat len) buf \<and> length sent = unat len)"
proof -
  have w: "TSSLSocket_write eng s buf len = write_loop eng buf len 0 0 []"
    using assms(1) by (simp add: TSSLSocket_write_def)
  have normal: "TSSLSocket_write eng s buf len = Some (Inr (), take (unat len) buf)
         \<and> length (take (unat len) buf) = unat len
         \<and> unat len = (\<Sum>k<J. unat (rc (chunk eng len k)))"
    if "chunks_accepted eng len J" "written_at eng len J = len" for J
  proof -
    note c = write_loop_chunks [OF assms(2) that(1), of buf]
    have "write_loop eng buf len J len (take (unat len) buf) = Some (Inr (), take (unat len) buf)"
      by (subst write_loop.simps) simp
    then show ?thesis
      using c that(2) w assms(3) by simp
  qed
  have raise: "TSSLSocket_write eng s buf len =
           Some (Inl (TSSLException (''SSL_write: '' @
                   fst (buildErrors eng (err_queue (chunk eng len J))
                          (errno (chunk eng len J))))),
                 take (unat (written_at eng len J)) buf)
         \<and> length (take (unat (written_at eng len J)) buf) < unat len"
    if "chunks_accepted eng len J" "written_at eng len J < len"
      "sint (rc (chunk eng len J)) \<le> 0" for J
  proof -
    note c = write_loop_chunks [OF assms(2) that(1), of buf]
    have "write_loop eng buf len J (written_at eng len J)
            (take (unat (written_at eng len J)) buf) =
          Some (Inl (TSSLException (''SSL_write: '' @
                   fst (buildErrors eng (err_queue (chunk eng len J))
                          (errno (chunk eng len J))))),
                take (unat (written_at eng len J)) buf)"
      using that(2,3) by (subst write_loop.simps) (simp add: chunk_def)
    moreover have "unat (written_at eng len J) < unat len"
      using that(2) by (simp add: word_less_nat_alt)
    ultimately show ?thesis
      using c w assms(3) by simp
  qed
  have stop: "\<exists>K. chunks_accepted eng len K \<and>
            (written_at eng len K = len \<or>
             written_at eng len K < len \<and> sint (rc (chunk eng len K)) \<le> 0)"
    using assms(2) by (rule chunks_stop [of eng len 0]) (simp add: chunks_accepted_def)
  then obtain J where J: "chunks_accepted eng len J"
    "written_at eng len J = len \<or>
     written_at eng len J < len \<and> sint (rc (chunk eng len J)) \<le> 0"
    by blast
  have total: "\<exists>r. TSSLSocket_write eng s buf len = Some r"
    using J normal [of J] raise [of J] by blast
  have only: "\<forall>sent. TSSLSocket_write eng s buf len = Some (Inr (), sent) \<longrightarrow>
           sent = take (unat len) buf \<and> length sent = unat len"
    using J normal [of J] raise [of J] by auto
  have drained: "0 \<notin> set (err_queue (chunk eng len K)) \<longrightarrow>
         snd (buildErrors eng (err_queue (chunk eng len K)) (errno (chunk eng len K))) = []"
    by (simp add: buildErrors_drains)
  from stop normal [of K] raise [of K] drained total only show ?thesis
    by (intro conjI impI) blast+
qed

theorem write_hands_over_exactly_len_bytes_witness:
  "checkHandshake chunking_engine connected_socket = Inr connected_socket
   \<and> unat (5 :: 32 word) \<le> length ''hello''
   \<and> written_at chunking_engine 5 2 = 5
   \<and> TSSLSocket_write chunking_engine connected_socket ''hello'' 5 = Some (Inr (), ''hello'')"
proof -
  have h1: "checkHandshake chunking_engine connected_socket = Inr connected_socket"
    by (simp add: checkHandshake_def connected_socket_def)
  have w: "\<And>k n. rc (SSL_write chunking_engine k n) = (if 3 < sint n then 3 else n)"
    by (simp add: chunking_engine_def example_engine_def chunked_writer_def ok_result_def)
  have h2: "\<forall>k n. 0 < sint (rc (SSL_write chunking_engine k n)) \<longrightarrow>
              sint (rc (SSL_write chunking_engine k n)) \<le> sint n"
    by (simp add: w)
  have h3: "unat (5 :: 32 word) \<le> length ''hello''"
    by simp
  have w1: "written_at chunking_engine 5 (Suc 0) = 3"
    by (simp add: w)
  have w2: "written_at chunking_engine 5 (Suc (Suc 0)) = 5"
    by (simp add: w)
  have w2': "written_at chunking_engine 5 2 = 5"
    using w2 by (simp add: numeral_2_eq_2)
  have acc: "chunks_accepted chunking_engine 5 2"
    using w1 by (auto simp: chunks_accepted_def chunk_def w less_2_cases_iff)
  have "TSSLSocket_write chunking_engine connected_socket ''hello'' 5 =
          Some (Inr (), take (unat (5 :: 32 word)) ''hello'')"
    using write_hands_over_exactly_len_bytes [OF h1 h2 h3, of 2] acc w2' by blast
  then have "TSSLSocket_write chunking_engine connected_socket ''hello'' 5 =
          Some (Inr (), ''hello'')"
    by simp
  with h1 h3 w2' show ?thesis
    by (intro conjI)
qed

subsection \<open>Hostname matching\<close>

lemma of_char_uppercase:
  "(of_char (uppercase c) :: nat) =
     (if 97 \<le> (of_char c :: nat) \<and> (of_char c :: nat) \<le> 122 then of_char c - 32 else of_char c)"
proof (cases "CHR ''a'' \<le> c \<and> c \<le> CHR ''z''")
  case True
  define n :: nat where "n = of_char c"
  from True have r: "97 \<le> n" "n \<le> 122"
    by (simp_all add: less_eq_char_def n_def)
  have "(of_char c :: int) = int n"
    by (simp add: n_def of_nat_of_char)
  then have "(of_char c :: int) + (of_char CHR ''A'' - of_char CHR ''a'') = int (n - 32)"
    using r by simp
  then have "uppercase c = char_of (int (n - 32))"
    using True by (simp only: uppercase_def if_True simp_thms)
  then have "uppercase c = char_of (n - 32)"
    by (simp only: char_of_nat)
  then have "(of_char (uppercase c) :: nat) = (n - 32) mod 256"
    by (simp only: of_char_of)
  with r show ?thesis
    by (simp add: n_def [symmetric])
next
  case False
  then have "\<not> (97 \<le> (of_char c :: nat) \<and> (of_char c :: nat) \<le> 122)"
    by (simp add: less_eq_char_def)
  with False show ?thesis
    by (simp only: uppercase_def if_False)
qed

lemma uppercase_star: "uppercase c = CHR ''*'' \<longleftrightarrow> c = CHR ''*''"
proof -
  have "uppercase c = CHR ''*'' \<longleftrightarrow> (of_char (uppercase c) :: nat) = of_char CHR ''*''"
    by (simp only: of_char_eq_iff)
  also have "\<dots> \<longleftrightarrow> (of_char c :: nat) = of_char CHR ''*''"
    by (auto simp add: of_char_uppercase)
  also have "\<dots> \<longleftrightarrow> c = CHR ''*''"
    by (simp only: of_char_eq_iff)
  finally show ?thesis .
qed

lemma cstr_at_NUL:
  assumes "CHR 0x00 \<notin> set host"
  shows "cstr_at host j = CHR 0x00 \<longleftrightarrow> length host \<le> j"
proof (cases "j < length host")
  case True
  then have "host ! j \<in> set host" by simp
  with assms have "host ! j \<noteq> CHR 0x00" by metis
  with True show ?thesis by (simp add: cstr_at_def)
next
  case False
  then show ?thesis by (simp add: cstr_at_def)
qed

lemma skip_label_takeWhile:
  assumes "CHR 0x00 \<notin> set host" "j \<le> length host"
  shows "skip_label host j = j + length (takeWhile (\<lambda>x. x \<noteq> CHR ''.'') (drop j host))"
  using assms
proof (induction host j rule: skip_label.induct)
  case (1 host j)
  show ?case
  proof (cases "cstr_at host j \<noteq> CHR ''.'' \<and> cstr_at host j \<noteq> CHR 0x00")
    case True
    then have lt: "j < length host"
      using "1.prems"(1) by (simp add: cstr_at_NUL)
    then have d: "drop j host = host ! j # drop (Suc j) host"
      by (simp add: Cons_nth_drop_Suc)
    have nd: "host ! j \<noteq> CHR ''.''"
      using True lt by (simp add: cstr_at_def)
    have "skip_label host j = skip_label host (j + 1)"
      using True by (subst skip_label.simps) simp
    also have "\<dots> = j + 1 + length (takeWhile (\<lambda>x. x \<noteq> CHR ''.'') (drop (j + 1) host))"
      using True lt "1.prems"(1) by (intro "1.IH") simp_all
    finally show ?thesis
      using d nd by (simp del: Cons_nth_drop_Suc)
  next
    case False
    then have s: "skip_label host j = j"
      by (subst skip_label.simps) (simp only: if_False)
    show ?thesis
    proof (cases "j < length host")
      case True
      then have d: "drop j host = host ! j # drop (Suc j) host"
        by (simp add: Cons_nth_drop_Suc)
      have "cstr_at host j \<noteq> CHR 0x00"
        using True "1.prems"(1) by (simp add: cstr_at_NUL)
      with False True have "host ! j = CHR ''.''"
        by (simp add: cstr_at_def)
      with s d show ?thesis by (simp del: Cons_nth_drop_Suc)
    next
      case False
      with s show ?thesis by simp
    qed
  qed
qed

lemma drop_skip_label:
  assumes "CHR 0x00 \<notin> set host" "j \<le> length host"
  shows "drop (skip_label host j) host = dropWhile (\<lambda>x. x \<noteq> CHR ''.'') (drop j host)"
    and "skip_label host j \<le> length host"
proof -
  let ?t = "takeWhile (\<lambda>x. x \<noteq> CHR ''.'') (drop j host)"
  have s: "skip_label host j = j + length ?t"
    using assms by (rule skip_label_takeWhile)
  have "drop (skip_label host j) host = drop (length ?t) (drop j host)"
    unfolding s by (simp add: add.commute)
  also have "\<dots> = dropWhile (\<lambda>x. x \<noteq> CHR ''.'') (drop j host)"
    by (simp add: dropWhile_eq_drop)
  finally show "drop (skip_label host j) host = dropWhile (\<lambda>x. x \<noteq> CHR ''.'') (drop j host)" .
  have "length ?t \<le> length (drop j host)"
    by (rule length_takeWhile_le)
  then show "skip_label host j \<le> length host"
    unfolding s using assms(2) by simp
qed

lemma matchName_loop_refines:
  assumes "CHR 0x00 \<notin> set host" "i \<le> length pattern" "j \<le> length host"
  shows "(case matchName_loop host pattern (int (length pattern)) i j of
            (i', j') \<Rightarrow> int i' = int (length pattern) \<and> cstr_at host j' = CHR 0x00) =
         match_lists (drop j host) (drop i pattern)"
  using assms
proof (induction host pattern "int (length pattern)" i j rule: matchName_loop.induct)
  case (1 host pattern i j)
  let ?sz = "int (length pattern)"
  show ?case
  proof (cases "int i < ?sz \<and> cstr_at host j \<noteq> CHR 0x00")
    case True
    then have li: "i < length pattern" by simp
    from True have lj: "j < length host"
      using "1.prems"(1) by (simp add: cstr_at_NUL)
    have dh: "drop j host = host ! j # drop (Suc j) host"
      using lj by (simp add: Cons_nth_drop_Suc)
    have dp: "drop i pattern = pattern ! i # drop (Suc i) pattern"
      using li by (simp add: Cons_nth_drop_Suc)
    have cj: "cstr_at host j = host ! j"
      using lj by (simp add: cstr_at_def)
    show ?thesis
    proof (cases "uppercase (pattern ! i) = uppercase (cstr_at host j)")
      case eq: True
      have "matchName_loop host pattern ?sz i j = matchName_loop host pattern ?sz (i + 1) (j + 1)"
        using True eq by (subst matchName_loop.simps) simp
      moreover have "(case matchName_loop host pattern ?sz (i + 1) (j + 1) of
            (i', j') \<Rightarrow> int i' = ?sz \<and> cstr_at host j' = CHR 0x00) =
         match_lists (drop (j + 1) host) (drop (i + 1) pattern)"
        using True eq li lj "1.prems"(1) by (intro "1.hyps"(1)) simp_all
      moreover have "match_lists (drop j host) (drop i pattern) =
          match_lists (drop (j + 1) host) (drop (i + 1) pattern)"
        using eq cj by (simp add: dh dp del: Cons_nth_drop_Suc)
      ultimately show ?thesis by simp
    next
      case ne: False
      show ?thesis
      proof (cases "pattern ! i = CHR ''*''")
        case star: True
        have "matchName_loop host pattern ?sz i j =
              matchName_loop host pattern ?sz (i + 1) (skip_label host j)"
          using True ne star by (subst matchName_loop.simps) simp
        moreover have "(case matchName_loop host pattern ?sz (i + 1) (skip_label host j) of
            (i', j') \<Rightarrow> int i' = ?sz \<and> cstr_at host j' = CHR 0x00) =
         match_lists (drop (skip_label host j) host) (drop (i + 1) pattern)"
          using True ne star li "1.prems"(1) drop_skip_label(2) [OF "1.prems"(1,3)]
          by (intro "1.hyps"(2)) simp_all
        moreover have "match_lists (drop j host) (drop i pattern) =
            match_lists (drop (skip_label host j) host) (drop (i + 1) pattern)"
          using ne cj star drop_skip_label(1) [OF "1.prems"(1,3)]
          by (simp add: dh dp del: Cons_nth_drop_Suc)
        ultimately show ?thesis by simp
      next
        case nostar: False
        have "matchName_loop host pattern ?sz i j = (i, j)"
          using True ne nostar by (subst matchName_loop.simps) simp
        moreover have "\<not> match_lists (drop j host) (drop i pattern)"
          using ne cj nostar by (simp add: dh dp del: Cons_nth_drop_Suc)
        ultimately show ?thesis using li by simp
      qed
    qed
  next
    case False
    have l: "matchName_loop host pattern ?sz i j = (i, j)"
      using False by (subst matchName_loop.simps) auto
    show ?thesis
    proof (cases "j < length host")
      case True
      then have dh: "drop j host = host ! j # drop (Suc j) host"
        by (simp add: Cons_nth_drop_Suc)
      have nn: "cstr_at host j \<noteq> CHR 0x00"
        using True "1.prems"(1) by (simp add: cstr_at_NUL)
      with False have "length pattern \<le> i" by simp
      then have "drop i pattern = []" by simp
      then have "\<not> match_lists (drop j host) (drop i pattern)"
        by (simp add: dh del: Cons_nth_drop_Suc)
      with l nn show ?thesis by simp
    next
      case False
      then have "drop j host = []" by simp
      moreover have "cstr_at host j = CHR 0x00"
        using False by (simp add: cstr_at_def)
      ultimately show ?thesis
        using l "1.prems"(2) by auto
    qed
  qed
qed

lemma matchName_refines:
  assumes "CHR 0x00 \<notin> set host"
  shows "matchName host pattern (int (length pattern)) = match_lists host pattern"
  using matchName_loop_refines [OF assms, of 0 pattern 0]
  by (simp add: matchName_def)

lemma matchName_loop_bounds:
  assumes "CHR 0x00 \<notin> set host" "j \<le> length host"
  shows "snd (matchName_loop host pattern sz i j) \<le> length host"
  using assms
proof (induction host pattern sz i j rule: matchName_loop.induct)
  case (1 host pattern sz i j)
  show ?case
  proof (cases "int i < sz \<and> cstr_at host j \<noteq> CHR 0x00")
    case True
    then have lj: "j < length host"
      using "1.prems"(1) by (simp add: cstr_at_NUL)
    show ?thesis
    proof (cases "uppercase (pattern ! i) = uppercase (cstr_at host j)")
      case eq: True
      have "matchName_loop host pattern sz i j = matchName_loop host pattern sz (i + 1) (j + 1)"
        using True eq by (subst matchName_loop.simps) simp
      moreover have "snd (matchName_loop host pattern sz (i + 1) (j + 1)) \<le> length host"
        using True eq lj "1.prems"(1) by (intro "1.IH"(1)) simp_all
      ultimately show ?thesis by simp
    next
      case ne: False
      show ?thesis
      proof (cases "pattern ! i = CHR ''*''")
        case star: True
        have "matchName_loop host pattern sz i j =
              matchName_loop host pattern sz (i + 1) (skip_label host j)"
          using True ne star by (subst matchName_loop.simps) simp
        moreover have "snd (matchName_loop host pattern sz (i + 1) (skip_label host j)) \<le> length host"
          using True ne star "1.prems"(1) drop_skip_label(2) [OF "1.prems"(1,2)]
          by (intro "1.IH"(2)) simp_all
        ultimately show ?thesis by simp
      next
        case nostar: False
        have "matchName_loop host pattern sz i j = (i, j)"
          using True ne nostar by (subst matchName_loop.simps) simp
        then show ?thesis using "1.prems"(2) by simp
      qed
    qed
  next
    case False
    have "matchName_loop host pattern sz i j = (i, j)"
      using False by (subst matchName_loop.simps) auto
    then show ?thesis using "1.prems"(2) by simp
  qed
qed

lemma match_lists_no_wildcard:
  assumes "CHR ''*'' \<notin> set pattern"
  shows "match_lists host pattern = (map uppercase host = map uppercase pattern)"
  using assms
proof (induction host pattern rule: match_lists.induct)
  case (1 p)
  then show ?case by auto
next
  case (2 h hs)
  then show ?case by simp
next
  case (3 h hs c p)
  then show ?case by auto
qed

lemma match_lists_prefix:
  assumes "map uppercase pre = map uppercase pre_p"
  shows "match_lists (pre @ host) (pre_p @ p) = match_lists host p"
  using assms
proof (induction pre arbitrary: pre_p)
  case Nil
  then show ?case by simp
next
  case (Cons a pre)
  then obtain b q where "pre_p = b # q" "uppercase a = uppercase b" "map uppercase pre = map uppercase q"
    by (cases pre_p) auto
  with Cons.IH [of q] show ?case by simp
qed

lemma match_lists_wildcard:
  "match_lists host (CHR ''*'' # p) =
     (host \<noteq> [] \<and>
      (if hd host = CHR ''*'' then match_lists (tl host) p
       else match_lists (dropWhile (\<lambda>c. c \<noteq> CHR ''.'') host) p))"
proof (cases host)
  case Nil
  then show ?thesis by simp
next
  case (Cons h hs)
  have "uppercase CHR ''*'' = CHR ''*''"
    by (simp add: uppercase_star)
  then have "(uppercase CHR ''*'' = uppercase h) = (h = CHR ''*'')"
    by (metis uppercase_star)
  with Cons show ?thesis
    by (simp del: dropWhile.simps)
qed

lemma match_lists_literal:
  assumes "c \<noteq> CHR ''*''"
  shows "match_lists host (c # p) =
           (host \<noteq> [] \<and> uppercase c = uppercase (hd host) \<and> match_lists (tl host) p)"
  using assms by (cases host) simp_all

lemma match_lists_Nil: "match_lists host [] = (host = [])"
  by (cases host) simp_all

text \<open>
  Claim C2, as amended. For a hostname (the characters of a C string) and a pattern
  \<open>P\<close>, \<^verbatim>\<open>matchName(H, P, |P|)\<close> is the walk of the specification, \<open>match_lists\<close>, and
  it succeeds exactly when the loop ends with the pattern and the hostname both
  consumed to their ends. The walk is given by its equations: the empty pattern matches
  the empty hostname only; a pattern character other than \<^verbatim>\<open>*\<close> needs an equal
  character of the hostname (ASCII letters without case) and the rest to match; a
  \<^verbatim>\<open>*\<close> facing a character of the hostname that is not a \<^verbatim>\<open>*\<close> absorbs the
  characters before the next \<^verbatim>\<open>.\<close> and the rest must match from there. The
  wildcard may absorb no character at all: where the hostname is at a \<^verbatim>\<open>.\<close>, the
  pattern matches as it does without the wildcard. So \<^verbatim>\<open>"example.co"\<close> does not match
  \<^verbatim>\<open>"example.com"\<close>, \<^verbatim>\<open>"*.com"\<close> matches the host \<^verbatim>\<open>".com"\<close>, and it does not match
  the host \<^verbatim>\<open>"com"\<close>.
\<close>

theorem matchName_consumes_pattern_and_host:
  assumes "CHR 0x00 \<notin> set host"
  shows "matchName host pattern (int (length pattern)) = match_lists host pattern
    \<and> matchName host pattern (int (length pattern)) =
        (matchName_loop host pattern (int (length pattern)) 0 0 = (length pattern, length host))
    \<and> matchName host [] (int (length ([] :: string))) = (host = [])
    \<and> (c \<noteq> CHR ''*'' \<longrightarrow>
         matchName host (c # p) (int (length (c # p))) =
           (host \<noteq> [] \<and> uppercase c = uppercase (hd host) \<and>
            matchName (tl host) p (int (length p))))
    \<and> matchName host (CHR ''*'' # p) (int (length (CHR ''*'' # p))) =
        (host \<noteq> [] \<and>
         (if hd host = CHR ''*'' then matchName (tl host) p (int (length p))
          else matchName (dropWhile (\<lambda>x. x \<noteq> CHR ''.'') host) p (int (length p))))
    \<and> (host \<noteq> [] \<and> hd host = CHR ''.'' \<longrightarrow>
         matchName host (CHR ''*'' # p) (int (length (CHR ''*'' # p))) =
           matchName host p (int (length p)))
    \<and> (CHR ''*'' \<notin> set pattern \<longrightarrow>
         matchName host pattern (int (length pattern)) = (map uppercase host = map uppercase pattern))
    \<and> \<not> matchName ''example.com'' ''example.co'' 10
    \<and> matchName ''.com'' ''*.com'' 5
    \<and> \<not> matchName ''com'' ''*.com'' 5"
proof -
  note r = matchName_refines [OF assms]
  have n1: "CHR 0x00 \<notin> set (tl host)"
    using assms by (cases host) auto
  have n2: "CHR 0x00 \<notin> set (dropWhile (\<lambda>x. x \<noteq> CHR ''.'') host)"
    using assms set_dropWhileD by fastforce
  note r1 = matchName_refines [OF n1]
  note r2 = matchName_refines [OF n2]
  have a: "matchName host pattern (int (length pattern)) = match_lists host pattern"
    by (rule r)
  obtain i' j' where l: "matchName_loop host pattern (int (length pattern)) 0 0 = (i', j')"
    by (cases "matchName_loop host pattern (int (length pattern)) 0 0")
  have "j' \<le> length host"
    using matchName_loop_bounds [OF assms, of 0 pattern "int (length pattern)" 0] l by simp
  then have "cstr_at host j' = CHR 0x00 \<longleftrightarrow> j' = length host"
    using cstr_at_NUL [OF assms, of j'] by auto
  then have b: "matchName host pattern (int (length pattern)) =
           (matchName_loop host pattern (int (length pattern)) 0 0 = (length pattern, length host))"
    using l by (simp add: matchName_def)
  have c: "matchName host [] (int (length ([] :: string))) = (host = [])"
    unfolding r by (rule match_lists_Nil)
  have d: "c \<noteq> CHR ''*'' \<longrightarrow>
         matchName host (c # p) (int (length (c # p))) =
           (host \<noteq> [] \<and> uppercase c = uppercase (hd host) \<and>
            matchName (tl host) p (int (length p)))"
    unfolding r r1 by (simp add: match_lists_literal)
  have e: "matchName host (CHR ''*'' # p) (int (length (CHR ''*'' # p))) =
        (host \<noteq> [] \<and>
         (if hd host = CHR ''*'' then matchName (tl host) p (int (length p))
          else matchName (dropWhile (\<lambda>x. x \<noteq> CHR ''.'') host) p (int (length p))))"
    unfolding r r1 r2 by (rule match_lists_wildcard)
  have f: "host \<noteq> [] \<and> hd host = CHR ''.'' \<longrightarrow>
         matchName host (CHR ''*'' # p) (int (length (CHR ''*'' # p))) =
           matchName host p (int (length p))"
  proof
    assume h: "host \<noteq> [] \<and> hd host = CHR ''.''"
    then have "dropWhile (\<lambda>x. x \<noteq> CHR ''.'') host = host"
      by (cases host) simp_all
    with h show "matchName host (CHR ''*'' # p) (int (length (CHR ''*'' # p))) =
           matchName host p (int (length p))"
      unfolding e by simp
  qed
  have g: "CHR ''*'' \<notin> set pattern \<longrightarrow>
         matchName host pattern (int (length pattern)) = (map uppercase host = map uppercase pattern)"
    unfolding r by (simp add: match_lists_no_wildcard)
  have i1: "\<not> matchName ''example.com'' ''example.co'' 10"
    by code_simp
  have i2: "matchName ''.com'' ''*.com'' 5"
    by code_simp
  have i3: "\<not> matchName ''com'' ''*.com'' 5"
    by code_simp
  from a b c d e f g i1 i2 i3 show ?thesis
    by (intro conjI)
qed

theorem matchName_consumes_pattern_and_host_witness:
  "CHR 0x00 \<notin> set ''Host.Example.com'' \<and> CHR ''*'' \<notin> set ''HOST.example.COM''
   \<and> matchName ''Host.Example.com'' ''HOST.example.COM'' 16
   \<and> matchName ''.example.com'' ''*.example.com'' 13"
proof -
  have h: "CHR 0x00 \<notin> set ''Host.Example.com''"
    by simp
  have h': "CHR 0x00 \<notin> set ''.example.com''"
    by simp
  have s: "CHR ''*'' \<notin> set ''HOST.example.COM''"
    by simp
  have u: "map uppercase ''Host.Example.com'' = map uppercase ''HOST.example.COM''"
    by code_simp
  have "matchName ''Host.Example.com'' ''HOST.example.COM'' (int (length ''HOST.example.COM''))"
    using matchName_consumes_pattern_and_host [OF h, of "''HOST.example.COM''"] s u by blast
  then have m: "matchName ''Host.Example.com'' ''HOST.example.COM'' 16"
    by simp
  have e: "matchName ''.example.com'' ''.example.com'' 12"
    by code_simp
  have "matchName ''.example.com'' (CHR ''*'' # ''.example.com'')
          (int (length (CHR ''*'' # ''.example.com''))) =
        matchName ''.example.com'' ''.example.com'' (int (length ''.example.com''))"
    using matchName_consumes_pattern_and_host [OF h', of _ _ "''.example.com''"] by simp
  with e have m': "matchName ''.example.com'' ''*.example.com'' 13"
    by simp
  from h s m m' show ?thesis
    by (intro conjI)
qed

text \<open>
  Claim C2 as stated fails: the wildcard of \<^verbatim>\<open>"*.com"\<close> absorbs an empty label, and
  the host \<^verbatim>\<open>".com"\<close>, which has no label before \<^verbatim>\<open>".com"\<close>, is matched.
\<close>

theorem wildcard_accepts_empty_label:
  "matchName ''.com'' ''*.com'' 5"
  by code_simp

text \<open>
  Claim C3. Let the pattern reach a \<^verbatim>\<open>*\<close> after a prefix that the hostname has
  matched character by character, with \<open>host\<close> left of the hostname. Then the match
  continues behind the wildcard with exactly \<open>dropWhile (\<lambda>c. c \<noteq> CHR ''.'') host\<close>:
  the wildcard has absorbed the characters of \<open>host\<close> up to its next \<^verbatim>\<open>.\<close> or its end,
  the rest of one dot-delimited label and never a \<^verbatim>\<open>.\<close> (a \<^verbatim>\<open>*\<close> in the host itself,
  which no hostname has, is an equal character for the first rule of the walk and is
  matched as such). Hence \<^verbatim>\<open>"*.example.com"\<close> does not match \<^verbatim>\<open>"a.b.example.com"\<close> and
  matches \<^verbatim>\<open>"b.example.com"\<close>.
\<close>

theorem wildcard_absorbs_one_label:
  assumes "CHR 0x00 \<notin> set (pre @ host)"
    and "map uppercase pre = map uppercase pre_p"
  shows "matchName (pre @ host) (pre_p @ CHR ''*'' # p) (int (length (pre_p @ CHR ''*'' # p))) =
           (host \<noteq> [] \<and>
            (if hd host = CHR ''*'' then matchName (tl host) p (int (length p))
             else matchName (dropWhile (\<lambda>c. c \<noteq> CHR ''.'') host) p (int (length p))))
    \<and> \<not> matchName ''a.b.example.com'' ''*.example.com'' 13
    \<and> matchName ''b.example.com'' ''*.example.com'' 13"
proof -
  have n1: "CHR 0x00 \<notin> set (tl host)"
    using assms(1) by (cases host) auto
  have n2: "CHR 0x00 \<notin> set (dropWhile (\<lambda>c. c \<noteq> CHR ''.'') host)"
    using assms(1) set_dropWhileD by fastforce
  have "matchName (pre @ host) (pre_p @ CHR ''*'' # p) (int (length (pre_p @ CHR ''*'' # p))) =
        match_lists (pre @ host) (pre_p @ CHR ''*'' # p)"
    using assms(1) by (rule matchName_refines)
  also have "\<dots> = match_lists host (CHR ''*'' # p)"
    using assms(2) by (rule match_lists_prefix)
  also have "\<dots> = (host \<noteq> [] \<and>
            (if hd host = CHR ''*'' then match_lists (tl host) p
             else match_lists (dropWhile (\<lambda>c. c \<noteq> CHR ''.'') host) p))"
    by (rule match_lists_wildcard)
  also have "\<dots> = (host \<noteq> [] \<and>
            (if hd host = CHR ''*'' then matchName (tl host) p (int (length p))
             else matchName (dropWhile (\<lambda>c. c \<noteq> CHR ''.'') host) p (int (length p))))"
    by (simp only: matchName_refines [OF n1] matchName_refines [OF n2])
  finally have a: "matchName (pre @ host) (pre_p @ CHR ''*'' # p) (int (length (pre_p @ CHR ''*'' # p))) =
           (host \<noteq> [] \<and>
            (if hd host = CHR ''*'' then matchName (tl host) p (int (length p))
             else matchName (dropWhile (\<lambda>c. c \<noteq> CHR ''.'') host) p (int (length p))))" .
  have b: "\<not> matchName ''a.b.example.com'' ''*.example.com'' 13"
    by code_simp
  have c: "matchName ''b.example.com'' ''*.example.com'' 13"
    by code_simp
  from a b c show ?thesis
    by (intro conjI)
qed

theorem wildcard_absorbs_one_label_witness:
  "CHR 0x00 \<notin> set (''www.'' @ ''b.example.com'') \<and> map uppercase ''www.'' = map uppercase ''WWW.''
   \<and> matchName ''www.b.example.com'' ''WWW.*.example.com'' 17
   \<and> \<not> matchName ''www.a.b.example.com'' ''WWW.*.example.com'' 17"
proof -
  have h1: "CHR 0x00 \<notin> set (''www.'' @ ''b.example.com'')"
    by simp
  have h1': "CHR 0x00 \<notin> set (''www.'' @ ''a.b.example.com'')"
    by simp
  have h2: "map uppercase ''www.'' = map uppercase ''WWW.''"
    by code_simp
  have e: "matchName ''.example.com'' ''.example.com'' 12"
    by code_simp
  have e': "\<not> matchName ''.b.example.com'' ''.example.com'' 12"
    by code_simp
  have "matchName (''www.'' @ ''b.example.com'') (''WWW.'' @ CHR ''*'' # ''.example.com'')
          (int (length (''WWW.'' @ CHR ''*'' # ''.example.com'')))"
    using wildcard_absorbs_one_label [OF h1 h2, of "''.example.com''"] e by simp
  then have w: "matchName ''www.b.example.com'' ''WWW.*.example.com'' 17"
    by simp
  have "\<not> matchName (''www.'' @ ''a.b.example.com'') (''WWW.'' @ CHR ''*'' # ''.example.com'')
          (int (length (''WWW.'' @ CHR ''*'' # ''.example.com'')))"
    using wildcard_absorbs_one_label [OF h1' h2, of "''.example.com''"] e' by simp
  then have w': "\<not> matchName ''www.a.b.example.com'' ''WWW.*.example.com'' 17"
    by simp
  from h1 h2 w w' show ?thesis
    by (intro conjI)
qed

subsection \<open>The engine lifecycle\<close>

lemma unat_count_succ:
  fixes c :: "64 word"
  assumes "unat c \<le> n" "n + 1 < 2 ^ 64"
  shows "unat (c + 1) = unat c + 1"
proof -
  have "unat c + 1 < 2 ^ LENGTH(64)" using assms by simp
  then have "unat (c + 1) = unat c + unat (1 :: 64 word)"
    by (intro unat_add_lem [THEN iffD1]) simp
  then show ?thesis
    by simp
qed

lemma unat_count_pred:
  fixes c :: "64 word"
  assumes "0 < unat c"
  shows "unat (c - 1) = unat c - 1"
proof -
  have "c \<noteq> 0" using assms by (auto simp: unat_eq_zero)
  then show ?thesis by (rule unat_minus_one)
qed

lemma alternating_Suc:
  "alternating (Suc n) = alternating n @ [if even n then LibraryInit else LibraryCleanup]"
  by (simp add: alternating_def)

lemma new_state:
  "snd (TSSLSocketFactory_new eng st Allocated c) =
     (if count st = 0 \<and> \<not> initialized st then
        (st\<lparr>initialized := True, mutexes := True, callbacks := True,
            actions := actions st @ [LibraryInit]\<rparr>)\<lparr>count := count st + 1\<rparr>
      else st\<lparr>count := count st + 1\<rparr>)"
  by (cases c) (simp_all add: TSSLSocketFactory_new_def initializeOpenSSL_def)

lemma new_result:
  "fst (TSSLSocketFactory_new eng st Allocated c) =
     (case c of None \<Rightarrow> Inr ()
      | Some q \<Rightarrow> Inl (TSSLException (''SSL_CTX_new: '' @ fst (buildErrors eng q 0))))"
  by (cases c) (simp_all add: TSSLSocketFactory_new_def initializeOpenSSL_def)

lemma delete_state:
  "TSSLSocketFactory_delete st =
     (if count st = 1 \<and> initialized st then
        (st\<lparr>count := 0\<rparr>)\<lparr>initialized := False, mutexes := False, callbacks := False,
            actions := actions st @ [LibraryCleanup]\<rparr>
      else st\<lparr>count := count st - 1\<rparr>)"
  by (simp add: TSSLSocketFactory_delete_def cleanupOpenSSL_def)

lemma new_inv:
  assumes "lifecycle_inv st alive n" "n + 1 < 2 ^ 64"
  shows "lifecycle_inv (snd (TSSLSocketFactory_new eng st Allocated c)) (alive + 1) (n + 1)"
proof -
  have u: "unat (count st + 1) = unat (count st) + 1"
    using assms by (intro unat_count_succ [of _ n]) (simp_all add: lifecycle_inv_def)
  have nz: "count st + 1 \<noteq> 0"
  proof
    assume "count st + 1 = 0"
    then have "unat (count st + 1) = 0" by simp
    with u show False by simp
  qed
  show ?thesis
  proof (cases "count st = 0")
    case True
    with assms(1) have ni: "\<not> initialized st"
      by (simp add: lifecycle_inv_def)
    have ev: "even (length (actions st))"
      using assms(1) ni by (simp add: lifecycle_inv_def)
    have alt: "alternating (Suc (length (actions st))) = actions st @ [LibraryInit]"
      using assms(1) ev by (simp add: alternating_Suc lifecycle_inv_def)
    show ?thesis
      using assms(1) True ni ev alt u nz
      by (simp add: new_state lifecycle_inv_def)
  next
    case False
    with assms(1) have "initialized st"
      by (simp add: lifecycle_inv_def)
    with False assms(1) u nz show ?thesis
      by (simp add: new_state lifecycle_inv_def)
  qed
qed

lemma delete_inv:
  assumes "lifecycle_inv st alive n" "0 < alive"
  shows "lifecycle_inv (TSSLSocketFactory_delete st) (alive - 1) (n + 1)"
proof -
  have pos: "0 < unat (count st)"
    using assms by (simp add: lifecycle_inv_def)
  then have u: "unat (count st - 1) = unat (count st) - 1"
    by (rule unat_count_pred)
  have nz: "count st \<noteq> 0"
    using pos by (auto simp: unat_eq_zero)
  then have init: "initialized st"
    using assms(1) by (simp add: lifecycle_inv_def)
  then have od: "odd (length (actions st))"
    using assms(1) by (simp add: lifecycle_inv_def)
  have alt: "alternating (Suc (length (actions st))) = actions st @ [LibraryCleanup]"
    using assms(1) od by (simp add: alternating_Suc lifecycle_inv_def)
  show ?thesis
  proof (cases "count st = 1")
    case True
    then have "unat (count st) = 1" by simp
    with assms True init od alt show ?thesis
      by (simp add: delete_state lifecycle_inv_def)
  next
    case False
    then have "count st - 1 \<noteq> 0" by simp
    with assms False init u show ?thesis
      by (auto simp: delete_state lifecycle_inv_def)
  qed
qed

lemma inv_fewer_alive: "lifecycle_inv st (alive + 1) n \<Longrightarrow> lifecycle_inv st alive n"
  by (auto simp: lifecycle_inv_def)

lemma run_inv:
  assumes "run eng es (st, alive) = Some (st', alive')"
    and "lifecycle_inv st alive n" "list_all alloc_ok es" "n + length es < 2 ^ 64"
  shows "lifecycle_inv st' alive' (n + length es)"
  using assms
proof (induction es arbitrary: st alive n)
  case Nil
  then show ?case by simp
next
  case (Cons e es)
  show ?case
  proof (cases e)
    case (Construct m c)
    with Cons.prems have m: "m = Allocated" by simp
    let ?st1 = "snd (TSSLSocketFactory_new eng st Allocated c)"
    have inv1: "lifecycle_inv ?st1 (alive + 1) (n + 1)"
      using Cons.prems(2,4) by (intro new_inv) simp_all
    show ?thesis
    proof (cases c)
      case None
      have run1: "run eng es (?st1, alive + 1) = Some (st', alive')"
        using Cons.prems(1) Construct m None new_result [of eng st c]
        by (cases "TSSLSocketFactory_new eng st Allocated c") simp
      have "lifecycle_inv st' alive' (n + 1 + length es)"
        using run1 inv1 Cons.prems(3,4) by (intro Cons.IH [of ?st1 "alive + 1" "n + 1"]) simp_all
      then show ?thesis by simp
    next
      case (Some q)
      have run1: "run eng es (?st1, alive) = Some (st', alive')"
        using Cons.prems(1) Construct m Some new_result [of eng st c]
        by (cases "TSSLSocketFactory_new eng st Allocated c") simp
      have "lifecycle_inv st' alive' (n + 1 + length es)"
        using run1 inv_fewer_alive [OF inv1] Cons.prems(3,4)
        by (intro Cons.IH [of ?st1 alive "n + 1"]) simp_all
      then show ?thesis by simp
    qed
  next
    case Destroy
    with Cons.prems(1) have pos: "0 < alive"
      by (cases "alive = 0") simp_all
    have run1: "run eng es (TSSLSocketFactory_delete st, alive - 1) = Some (st', alive')"
      using Cons.prems(1) Destroy pos by simp
    have "lifecycle_inv st' alive' (n + 1 + length es)"
      using run1 delete_inv [OF Cons.prems(2) pos] Cons.prems(3,4)
      by (intro Cons.IH [of "TSSLSocketFactory_delete st" "alive - 1" "n + 1"]) simp_all
    then show ?thesis by simp
  qed
qed

lemma initial_inv: "lifecycle_inv initial_state 0 0"
  by (simp add: lifecycle_inv_def initial_state_def alternating_def)

text \<open>
  Claim C8, as amended. After every sequence of constructions and destructions of
  factories in which the mutex array is allocated whenever its allocation is attempted
  (each destruction that of a factory alive, fewer than \<open>2^64\<close> events), the
  engine-initialized flag is true iff the reference count is positive, and the count is
  at least the number of factories alive: so the engine, its mutex array and its
  callbacks are in place while any factory is alive. Initialization and cleanup have
  taken turns, starting with an initialization, so the engine was never initialized
  twice in a row; the next construction runs the initialization only when the count is
  0, and the next destruction runs the cleanup only when the count is 1.
\<close>

theorem engine_initialized_iff_factory_count_positive:
  assumes "run eng es (initial_state, 0) = Some (st, alive)"
    and "list_all alloc_ok es"
    and "length es < 2 ^ 64"
  shows "initialized st = (0 < unat (count st))
    \<and> alive \<le> unat (count st)
    \<and> (0 < alive \<longrightarrow> initialized st \<and> mutexes st \<and> callbacks st)
    \<and> actions st = alternating (length (actions st))
    \<and> initialized st = odd (length (actions st))
    \<and> actions (snd (TSSLSocketFactory_new eng st Allocated c)) =
        (if count st = 0 then actions st @ [LibraryInit] else actions st)
    \<and> actions (TSSLSocketFactory_delete st) =
        (if count st = 1 then actions st @ [LibraryCleanup] else actions st)"
proof -
  have "lifecycle_inv st alive (0 + length es)"
    using assms(1) initial_inv assms(2) by (rule run_inv) (use assms(3) in simp)
  then have inv: "lifecycle_inv st alive (length es)"
    by simp
  have i: "initialized st = (count st \<noteq> 0)"
    using inv by (simp add: lifecycle_inv_def)
  have a: "initialized st = (0 < unat (count st))"
    unfolding i by (simp add: unat_gt_0)
  have b: "alive \<le> unat (count st)"
    using inv by (simp add: lifecycle_inv_def)
  have m: "mutexes st = initialized st" "callbacks st = initialized st"
    using inv by (simp_all add: lifecycle_inv_def)
  have c: "0 < alive \<longrightarrow> initialized st \<and> mutexes st \<and> callbacks st"
    using a b m by auto
  have d: "actions st = alternating (length (actions st))"
    using inv by (simp add: lifecycle_inv_def)
  have e: "initialized st = odd (length (actions st))"
    using inv by (auto simp: lifecycle_inv_def)
  have f: "actions (snd (TSSLSocketFactory_new eng st Allocated c)) =
        (if count st = 0 then actions st @ [LibraryInit] else actions st)"
    using i by (simp add: new_state)
  have g: "actions (TSSLSocketFactory_delete st) =
        (if count st = 1 then actions st @ [LibraryCleanup] else actions st)"
    using i by (simp add: delete_state)
  from a b c d e f g show ?thesis
    by (intro conjI)
qed

theorem engine_initialized_iff_factory_count_positive_witness:
  "run (example_engine (\<lambda>k n. ok_result 0) (\<lambda>k n. ok_result n)) two_factories_one_destroyed
       (initial_state, 0) =
     Some (\<lparr> initialized = True, count = 1, mutexes = True, callbacks = True,
             actions = [LibraryInit] \<rparr>, 1)
   \<and> list_all alloc_ok two_factories_one_destroyed
   \<and> length two_factories_one_destroyed < 2 ^ 64
   \<and> actions (TSSLSocketFactory_delete
        \<lparr> initialized = True, count = 1, mutexes = True, callbacks = True,
          actions = [LibraryInit] \<rparr>) = [LibraryInit, LibraryCleanup]"
proof -
  let ?eng = "example_engine (\<lambda>k n. ok_result 0) (\<lambda>k n. ok_result n)"
  let ?st = "\<lparr> initialized = True, count = 1, mutexes = True, callbacks = True,
               actions = [LibraryInit] \<rparr>"
  have h1: "run ?eng two_factories_one_destroyed (initial_state, 0) = Some (?st, 1)"
    by (simp add: two_factories_one_destroyed_def initial_state_def TSSLSocketFactory_new_def
        initializeOpenSSL_def TSSLSocketFactory_delete_def cleanupOpenSSL_def)
  have h2: "list_all alloc_ok two_factories_one_destroyed"
    by (simp add: two_factories_one_destroyed_def)
  have h3: "length two_factories_one_destroyed < 2 ^ 64"
    by (simp add: two_factories_one_destroyed_def)
  have "actions (TSSLSocketFactory_delete ?st) =
          (if count ?st = 1 then actions ?st @ [LibraryCleanup] else actions ?st)"
    using engine_initialized_iff_factory_count_positive [OF h1 h2 h3] by blast
  then have "actions (TSSLSocketFactory_delete ?st) = [LibraryInit, LibraryCleanup]"
    by simp
  with h1 h2 h3 show ?thesis
    by (intro conjI)
qed

text \<open>
  Claim C8 as stated fails: a construction whose allocation of the mutex array throws
  leaves the flag set with the count at 0, and the construction that follows yields a
  factory alive with the flag set but neither mutex array nor callbacks in place, since
  \<^verbatim>\<open>initializeOpenSSL\<close> returns at once on the flag.
\<close>

theorem allocation_failure_leaves_flag_set:
  "run idle_engine [Construct AllocationThrows None] (initial_state, 0) =
     Some (\<lparr> initialized = True, count = 0, mutexes = False, callbacks = False,
             actions = [LibraryInit] \<rparr>, 0)
   \<and> run idle_engine [Construct AllocationThrows None, Construct Allocated None]
         (initial_state, 0) =
     Some (\<lparr> initialized = True, count = 1, mutexes = False, callbacks = False,
             actions = [LibraryInit] \<rparr>, 1)"
  by (simp add: initial_state_def TSSLSocketFactory_new_def initializeOpenSSL_def)

subsection \<open>Authorization\<close>

lemma consult_append:
  "consult am (qs @ rs) =
     (if fst (consult am qs) \<noteq> SKIP then consult am qs
      else (fst (consult am rs), snd (consult am qs) @ snd (consult am rs)))"
  by (induction qs) (auto split: prod.splits)

lemma consult_takeWhile:
  "snd (consult am qs) = take (Suc (length (takeWhile (\<lambda>q. ask am q = SKIP) qs))) qs
   \<and> fst (consult am qs) =
       (case dropWhile (\<lambda>q. ask am q = SKIP) qs of [] \<Rightarrow> SKIP | q # rest \<Rightarrow> ask am q)"
  by (induction qs) (auto split: prod.splits)

lemma alternatives_loop_decided:
  "d \<noteq> SKIP \<Longrightarrow> alternatives_loop am s sa names (d, host, asked) = (d, host, asked)"
  by (cases names) simp_all

lemma alternatives_loop_consult:
  "\<exists>host'. alternatives_loop am s sa names (SKIP, host, asked) =
     (fst (consult am (alt_queries (if host = [] then role_host s else host) sa names)),
      host',
      asked @ snd (consult am (alt_queries (if host = [] then role_host s else host) sa names)))
   \<and> (fst (consult am (alt_queries (if host = [] then role_host s else host) sa names)) = SKIP \<longrightarrow>
        host' = (if has_dns names then (if host = [] then role_host s else host) else host))"
proof (induction names arbitrary: host asked)
  case Nil
  then show ?case by (simp add: has_dns_def)
next
  case (Cons name names)
  let ?h = "if host = [] then role_host s else host"
  show ?case
  proof (cases name)
    case None
    have step: "alternatives_loop am s sa (name # names) (SKIP, host, asked) =
          alternatives_loop am s sa names (SKIP, host, asked)"
      using None by simp
    have aq: "alt_queries ?h sa (name # names) = alt_queries ?h sa names"
      using None by simp
    have dns: "has_dns (name # names) = has_dns names"
      using None by (simp add: has_dns_def)
    show ?thesis
      unfolding step aq dns using Cons.IH [of host asked] .
  next
    case (Some n)
    show ?thesis
    proof (cases "gn_type n")
      case GEN_DNS
      let ?q = "VerifyHost ?h (ia5 n) (int (length (ia5 n)))"
      have hh: "(if ?h = [] then role_host s else ?h) = ?h" by simp
      have step: "alternatives_loop am s sa (name # names) (SKIP, host, asked) =
            alternatives_loop am s sa names (ask am ?q, ?h, asked @ [?q])"
        using Some GEN_DNS by (simp add: ask_def role_host_def Let_def)
      have aq: "alt_queries ?h sa (name # names) = ?q # alt_queries ?h sa names"
        using Some GEN_DNS by simp
      have dns: "has_dns (name # names)"
        using Some GEN_DNS by (simp add: has_dns_def)
      show ?thesis
      proof (cases "ask am ?q = SKIP")
        case True
        obtain host' where
          l: "alternatives_loop am s sa names (SKIP, ?h, asked @ [?q]) =
               (fst (consult am (alt_queries ?h sa names)), host',
                (asked @ [?q]) @ snd (consult am (alt_queries ?h sa names)))"
          and h: "fst (consult am (alt_queries ?h sa names)) = SKIP \<longrightarrow>
               host' = (if has_dns names then ?h else ?h)"
          using Cons.IH [of ?h "asked @ [?q]"] unfolding hh by blast
        have c: "consult am (?q # alt_queries ?h sa names) =
                 (fst (consult am (alt_queries ?h sa names)),
                  ?q # snd (consult am (alt_queries ?h sa names)))"
          using True by (simp split: prod.splits)
        show ?thesis
          unfolding step aq c using True l h dns by simp
      next
        case False
        then have c: "consult am (?q # alt_queries ?h sa names) = (ask am ?q, [?q])"
          by simp
        show ?thesis
          unfolding step aq c using False by (simp add: alternatives_loop_decided)
      qed
    next
      case GEN_IPADD
      let ?q = "VerifyData sa (ia5 n) (int (length (ia5 n)))"
      have step: "alternatives_loop am s sa (name # names) (SKIP, host, asked) =
            alternatives_loop am s sa names (ask am ?q, host, asked @ [?q])"
        using Some GEN_IPADD by (simp add: ask_def)
      have aq: "alt_queries ?h sa (name # names) = ?q # alt_queries ?h sa names"
        using Some GEN_IPADD by simp
      have dns: "has_dns (name # names) = has_dns names"
        using Some GEN_IPADD by (simp add: has_dns_def)
      show ?thesis
      proof (cases "ask am ?q = SKIP")
        case True
        obtain host' where
          l: "alternatives_loop am s sa names (SKIP, host, asked @ [?q]) =
               (fst (consult am (alt_queries ?h sa names)), host',
                (asked @ [?q]) @ snd (consult am (alt_queries ?h sa names)))"
          and h: "fst (consult am (alt_queries ?h sa names)) = SKIP \<longrightarrow>
               host' = (if has_dns names then ?h else host)"
          using Cons.IH [of host "asked @ [?q]"] by blast
        have c: "consult am (?q # alt_queries ?h sa names) =
                 (fst (consult am (alt_queries ?h sa names)),
                  ?q # snd (consult am (alt_queries ?h sa names)))"
          using True by (simp split: prod.splits)
        show ?thesis
          unfolding step aq c dns using True l h by simp
      next
        case False
        then have c: "consult am (?q # alt_queries ?h sa names) = (ask am ?q, [?q])"
          by simp
        show ?thesis
          unfolding step aq c using False by (simp add: alternatives_loop_decided)
      qed
    next
      case (GEN_OTHER t)
      have step: "alternatives_loop am s sa (name # names) (SKIP, host, asked) =
            alternatives_loop am s sa names (SKIP, host, asked)"
        using Some GEN_OTHER by simp
      have aq: "alt_queries ?h sa (name # names) = alt_queries ?h sa names"
        using Some GEN_OTHER by simp
      have dns: "has_dns (name # names) = has_dns names"
        using Some GEN_OTHER by (simp add: has_dns_def)
      show ?thesis
        unfolding step aq dns using Cons.IH [of host asked] .
    qed
  qed
qed

lemma get_index_none:
  assumes "X509_NAME_get_index_by_NID name n l = - 1"
  shows "filter (\<lambda>e. entry_nid e = n) (drop (nat (l + 1)) name) = []"
proof -
  have f: "find (\<lambda>i. entry_nid (name ! i) = n) [nat (l + 1) ..< length name] = None"
    using assms by (auto simp: X509_NAME_get_index_by_NID_def split: option.splits)
  have "\<forall>e \<in> set (drop (nat (l + 1)) name). entry_nid e \<noteq> n"
  proof
    fix e assume "e \<in> set (drop (nat (l + 1)) name)"
    then obtain m where m: "m < length (drop (nat (l + 1)) name)" "e = drop (nat (l + 1)) name ! m"
      by (auto simp: in_set_conv_nth)
    then have "nat (l + 1) + m \<in> set [nat (l + 1) ..< length name]" by simp
    with f have "entry_nid (name ! (nat (l + 1) + m)) \<noteq> n"
      unfolding find_None_iff by blast
    with m show "entry_nid e \<noteq> n" by simp
  qed
  then show ?thesis
    by (simp add: filter_empty_conv)
qed

lemma get_index_some:
  assumes "X509_NAME_get_index_by_NID name n l \<noteq> - 1"
  defines "i \<equiv> X509_NAME_get_index_by_NID name n l"
  shows "filter (\<lambda>e. entry_nid e = n) (drop (nat (l + 1)) name) =
           name ! nat i # filter (\<lambda>e. entry_nid e = n) (drop (nat (i + 1)) name)"
    and "X509_NAME_get_entry name i = Some (name ! nat i)"
    and "entry_nid (name ! nat i) = n"
proof -
  let ?a = "nat (l + 1)"
  let ?P = "\<lambda>e. entry_nid e = n"
  obtain k where f: "find (\<lambda>i. entry_nid (name ! i) = n) [?a ..< length name] = Some k"
    using assms(1) by (auto simp: X509_NAME_get_index_by_NID_def split: option.splits)
  then have ik: "i = int k"
    by (simp add: i_def X509_NAME_get_index_by_NID_def)
  from f obtain j where j: "j < length [?a ..< length name]"
      "entry_nid (name ! ([?a ..< length name] ! j)) = n" "k = [?a ..< length name] ! j"
      "\<forall>m<j. entry_nid (name ! ([?a ..< length name] ! m)) \<noteq> n"
    unfolding find_Some_iff by blast
  have kj: "k = ?a + j" and kl: "k < length name"
    using j(1,3) by simp_all
  have pk: "entry_nid (name ! k) = n"
    using j(2,3) by simp
  have before: "\<forall>m<j. entry_nid (name ! (?a + m)) \<noteq> n"
    using j(1,4) by simp
  have "\<forall>e \<in> set (take j (drop ?a name)). \<not> ?P e"
  proof
    fix e assume "e \<in> set (take j (drop ?a name))"
    then obtain m where m: "m < length (take j (drop ?a name))" "e = take j (drop ?a name) ! m"
      by (auto simp: in_set_conv_nth)
    then have "m < j" "?a + m < length name" by auto
    with m before show "\<not> ?P e" by simp
  qed
  then have e: "filter ?P (take j (drop ?a name)) = []"
    by (simp add: filter_empty_conv)
  have "drop ?a name = take j (drop ?a name) @ drop j (drop ?a name)"
    by (simp only: append_take_drop_id)
  also have "drop j (drop ?a name) = drop k name"
    by (simp only: drop_drop kj add.commute)
  also have "drop k name = name ! k # drop (Suc k) name"
    using kl by (simp add: Cons_nth_drop_Suc)
  finally have d: "drop ?a name = take j (drop ?a name) @ name ! k # drop (Suc k) name" .
  have "filter ?P (drop ?a name) = filter ?P (take j (drop ?a name) @ name ! k # drop (Suc k) name)"
    using d by simp
  also have "\<dots> = name ! k # filter ?P (drop (Suc k) name)"
    using e pk by simp
  finally show "filter ?P (drop ?a name) = name ! nat i # filter ?P (drop (nat (i + 1)) name)"
    by (simp add: ik nat_add_distrib)
  show "X509_NAME_get_entry name i = Some (name ! nat i)"
    using kl by (simp add: ik X509_NAME_get_entry_def)
  show "entry_nid (name ! nat i) = n"
    using pk by (simp add: ik)
qed

lemma commonName_loop_decided:
  "d \<noteq> SKIP \<Longrightarrow> commonName_loop am s name lastpos (d, host, asked) = (d, host, asked)"
  by (subst commonName_loop.simps) simp

lemma commonName_loop_consult:
  "\<exists>host'. commonName_loop am s name lastpos (SKIP, host, asked) =
     (fst (consult am (cn_queries (if host = [] then getHost s else host)
                         (drop (nat (lastpos + 1)) name))),
      host',
      asked @ snd (consult am (cn_queries (if host = [] then getHost s else host)
                                 (drop (nat (lastpos + 1)) name))))"
proof (induction "nat (int (length name) - lastpos)" arbitrary: lastpos host asked rule: less_induct)
  case less
  let ?h = "if host = [] then getHost s else host"
  let ?i = "X509_NAME_get_index_by_NID name NID_commonName lastpos"
  show ?case
  proof (cases "?i = - 1")
    case True
    have "commonName_loop am s name lastpos (SKIP, host, asked) = (SKIP, host, asked)"
      using True by (subst commonName_loop.simps) simp
    moreover have "cn_queries ?h (drop (nat (lastpos + 1)) name) = []"
      using get_index_none [OF True] by (simp add: cn_queries_def)
    ultimately show ?thesis by simp
  next
    case False
    note some = get_index_some [OF False]
    note range = X509_NAME_get_index_by_NID_range [OF False]
    let ?e = "name ! nat ?i"
    let ?q = "VerifyHost ?h (entry_utf8 ?e) (int (length (entry_utf8 ?e)))"
    have hh: "(if ?h = [] then getHost s else ?h) = ?h" by simp
    have step: "commonName_loop am s name lastpos (SKIP, host, asked) =
          commonName_loop am s name ?i (ask am ?q, ?h, asked @ [?q])"
      using False some(2) by (subst commonName_loop.simps) (simp add: ask_def Let_def)
    have cq: "cn_queries ?h (drop (nat (lastpos + 1)) name) =
          ?q # cn_queries ?h (drop (nat (?i + 1)) name)"
      using some(1) by (simp add: cn_queries_def)
    show ?thesis
    proof (cases "ask am ?q = SKIP")
      case True
      have "\<exists>host'. commonName_loop am s name ?i (SKIP, ?h, asked @ [?q]) =
         (fst (consult am (cn_queries (if ?h = [] then getHost s else ?h)
                             (drop (nat (?i + 1)) name))),
          host',
          (asked @ [?q]) @ snd (consult am (cn_queries (if ?h = [] then getHost s else ?h)
                                     (drop (nat (?i + 1)) name))))"
        using range by (intro less.hyps) simp
      then obtain host' where l: "commonName_loop am s name ?i (SKIP, ?h, asked @ [?q]) =
         (fst (consult am (cn_queries ?h (drop (nat (?i + 1)) name))), host',
          (asked @ [?q]) @ snd (consult am (cn_queries ?h (drop (nat (?i + 1)) name))))"
        unfolding hh by blast
      have c: "consult am (?q # cn_queries ?h (drop (nat (?i + 1)) name)) =
               (fst (consult am (cn_queries ?h (drop (nat (?i + 1)) name))),
                ?q # snd (consult am (cn_queries ?h (drop (nat (?i + 1)) name))))"
        using True by (simp split: prod.splits)
      show ?thesis
        unfolding step cq c using True l by simp
    next
      case False
      then have c: "consult am (?q # cn_queries ?h (drop (nat (?i + 1)) name)) = (ask am ?q, [?q])"
        by simp
      show ?thesis
        unfolding step cq c using False by (simp add: commonName_loop_decided)
    qed
  qed
qed

lemma commonName_loop_Nil:
  "commonName_loop am s [] (- 1) (SKIP, host, asked) = (SKIP, host, asked)"
  by (subst commonName_loop.simps) (simp add: X509_NAME_get_index_by_NID_def)

lemma authorize_unfold:
  assumes "verify_result sess = X509_V_OK" "peer_certificate sess = Some cert"
    and "access s = Some am"
  shows "authorize s sess =
     (if verify_addr am (peer_sockaddr s) \<noteq> SKIP then
        (if verify_addr am (peer_sockaddr s) \<noteq> ALLOW
         then (Inl (TSSLException ''authorize: access denied based on remote IP''),
               [VerifyAddr (peer_sockaddr s)])
         else (Inr (), [VerifyAddr (peer_sockaddr s)]))
      else
        (case alternatives_loop am s (peer_sockaddr s) (alt_names cert)
                (SKIP, [], [VerifyAddr (peer_sockaddr s)]) of
           (d1, host1, asked1) \<Rightarrow>
             if d1 \<noteq> SKIP then
               (if d1 \<noteq> ALLOW then (Inl (TSSLException ''authorize: access denied''), asked1)
                else (Inr (), asked1))
             else
               (case commonName_loop am s (subject_entries cert) (- 1) (d1, host1, asked1) of
                  (d2, host2, asked2) \<Rightarrow>
                    (if d2 \<noteq> ALLOW
                     then (Inl (TSSLException ''authorize: cannot authorize peer''), asked2)
                     else (Inr (), asked2)))))"
proof (cases "verify_addr am (peer_sockaddr s) = SKIP")
  case False
  with assms show ?thesis
    by (simp add: authorize_def peer_sockaddr_def Let_def)
next
  case True
  then have t: "verify_addr am (case getpeername s of None \<Rightarrow> unspec_sockaddr | Some a \<Rightarrow> a) = SKIP"
    by (simp add: peer_sockaddr_def)
  show ?thesis
  proof (cases "subject_alt_name cert")
    case None
    show ?thesis
    proof (cases "subject_name cert")
      case n: None
      show ?thesis
        using assms True t None n
        by (simp add: authorize_def peer_sockaddr_def alt_names_def subject_entries_def
            commonName_loop_Nil Let_def)
    next
      case (Some name)
      show ?thesis
        using assms True t None Some
        by (simp add: authorize_def peer_sockaddr_def alt_names_def subject_entries_def Let_def)
    qed
  next
    case (Some alternatives)
    show ?thesis
    proof (cases "subject_name cert")
      case None
      show ?thesis
        using assms True t None Some
        by (simp add: authorize_def peer_sockaddr_def alt_names_def subject_entries_def
            commonName_loop_Nil Let_def split: prod.splits)
    next
      case n: (Some name)
      show ?thesis
        using assms True t Some n
        by (simp add: authorize_def peer_sockaddr_def alt_names_def subject_entries_def Let_def
            split: prod.splits)
    qed
  qed
qed

lemma authorize_consult:
  assumes "verify_result sess = X509_V_OK" "peer_certificate sess = Some cert"
    and "access s = Some am"
  shows "snd (authorize s sess) = snd (consult am (identity_sources s cert))"
    and "fst (authorize s sess) =
           (if fst (consult am (identity_sources s cert)) = ALLOW then Inr ()
            else Inl (TSSLException
              (if verify_addr am (peer_sockaddr s) \<noteq> SKIP
               then ''authorize: access denied based on remote IP''
               else if fst (consult am (alt_queries (role_host s) (peer_sockaddr s)
                                          (alt_names cert))) \<noteq> SKIP
               then ''authorize: access denied''
               else ''authorize: cannot authorize peer'')))"
proof -
  let ?sa = "peer_sockaddr s"
  let ?q0 = "VerifyAddr ?sa"
  let ?A = "alt_queries (role_host s) ?sa (alt_names cert)"
  let ?C = "cn_queries (cn_host s cert) (subject_entries cert)"
  have q0: "ask am ?q0 = verify_addr am ?sa"
    by (simp add: ask_def)
  have src: "identity_sources s cert = ?q0 # ?A @ ?C"
    by (simp add: identity_sources_def)
  note u = authorize_unfold [OF assms]
  have "snd (authorize s sess) = snd (consult am (identity_sources s cert)) \<and>
        fst (authorize s sess) =
           (if fst (consult am (identity_sources s cert)) = ALLOW then Inr ()
            else Inl (TSSLException
              (if verify_addr am ?sa \<noteq> SKIP
               then ''authorize: access denied based on remote IP''
               else if fst (consult am ?A) \<noteq> SKIP
               then ''authorize: access denied''
               else ''authorize: cannot authorize peer'')))"
  proof (cases "verify_addr am ?sa = SKIP")
    case False
    then show ?thesis
      unfolding u src by (simp add: q0)
  next
    case True
    obtain host1 where
      l1: "alternatives_loop am s ?sa (alt_names cert) (SKIP, [], [?q0]) =
             (fst (consult am ?A), host1, [?q0] @ snd (consult am ?A))"
      and h1: "fst (consult am ?A) = SKIP \<longrightarrow>
             host1 = (if has_dns (alt_names cert) then role_host s else [])"
      using alternatives_loop_consult [of am s ?sa "alt_names cert" "[]" "[?q0]"] by auto
    have c0: "consult am (?q0 # ?A @ ?C) =
              (fst (consult am (?A @ ?C)), ?q0 # snd (consult am (?A @ ?C)))"
      using True by (simp add: q0 split: prod.splits)
    show ?thesis
    proof (cases "fst (consult am ?A) = SKIP")
      case False
      then have ca: "consult am (?A @ ?C) = consult am ?A"
        by (simp add: consult_append)
      show ?thesis
        unfolding u src c0 ca using True False l1 by simp
    next
      case skip: True
      have hc: "(if host1 = [] then getHost s else host1) = cn_host s cert"
        using h1 skip by (auto simp: cn_host_def)
      obtain host2 where
        l2: "commonName_loop am s (subject_entries cert) (- 1)
               (SKIP, host1, [?q0] @ snd (consult am ?A)) =
             (fst (consult am ?C), host2, ([?q0] @ snd (consult am ?A)) @ snd (consult am ?C))"
        using commonName_loop_consult [of am s "subject_entries cert" "- 1" host1
            "[?q0] @ snd (consult am ?A)"]
        unfolding hc by auto
      have ca: "consult am (?A @ ?C) = (fst (consult am ?C), snd (consult am ?A) @ snd (consult am ?C))"
        using skip by (simp add: consult_append)
      show ?thesis
        unfolding u src c0 ca using True skip l1 l2 by simp
    qed
  qed
  then show "snd (authorize s sess) = snd (consult am (identity_sources s cert))"
    and "fst (authorize s sess) =
           (if fst (consult am (identity_sources s cert)) = ALLOW then Inr ()
            else Inl (TSSLException
              (if verify_addr am (peer_sockaddr s) \<noteq> SKIP
               then ''authorize: access denied based on remote IP''
               else if fst (consult am (alt_queries (role_host s) (peer_sockaddr s)
                                          (alt_names cert))) \<noteq> SKIP
               then ''authorize: access denied''
               else ''authorize: cannot authorize peer'')))"
    by simp_all
qed

text \<open>
  Claim C1. In an authorization pass that reaches the policy (the chain verified, a
  peer certificate present, an access manager configured), the calls made on the
  manager are the identity sources in their fixed order (the raw peer address, the
  alternate names in list order, the common-name entries in certificate order), up to
  and including the first whose decision is not \<open>SKIP\<close>, and none after it; that
  decision (or \<open>SKIP\<close>, when every source is inconclusive) is final. The socket is
  accepted iff the final decision is \<open>ALLOW\<close>; a \<open>DENY\<close>, or \<open>SKIP\<close> from every
  source, raises one of the three access-denied exceptions.
\<close>

theorem authorize_consults_sources_in_order:
  assumes "verify_result sess = X509_V_OK"
    and "peer_certificate sess = Some cert"
    and "access s = Some am"
  shows "snd (authorize s sess) =
           take (Suc (length (takeWhile (\<lambda>q. ask am q = SKIP) (identity_sources s cert))))
             (identity_sources s cert)
    \<and> fst (consult am (identity_sources s cert)) =
         (case dropWhile (\<lambda>q. ask am q = SKIP) (identity_sources s cert) of
            [] \<Rightarrow> SKIP
          | q # rest \<Rightarrow> ask am q)
    \<and> (fst (authorize s sess) = Inr ()) = (fst (consult am (identity_sources s cert)) = ALLOW)
    \<and> (fst (consult am (identity_sources s cert)) \<noteq> ALLOW \<longrightarrow>
         fst (authorize s sess) \<in>
           {Inl (TSSLException ''authorize: access denied based on remote IP''),
            Inl (TSSLException ''authorize: access denied''),
            Inl (TSSLException ''authorize: cannot authorize peer'')})"
proof -
  note c = authorize_consult [OF assms]
  note t = consult_takeWhile [of am "identity_sources s cert"]
  have a: "snd (authorize s sess) =
           take (Suc (length (takeWhile (\<lambda>q. ask am q = SKIP) (identity_sources s cert))))
             (identity_sources s cert)"
    using c(1) t by simp
  have b: "fst (consult am (identity_sources s cert)) =
         (case dropWhile (\<lambda>q. ask am q = SKIP) (identity_sources s cert) of
            [] \<Rightarrow> SKIP
          | q # rest \<Rightarrow> ask am q)"
    using t by simp
  have d: "(fst (authorize s sess) = Inr ()) = (fst (consult am (identity_sources s cert)) = ALLOW)"
    unfolding c(2) by simp
  have e: "fst (consult am (identity_sources s cert)) \<noteq> ALLOW \<longrightarrow>
         fst (authorize s sess) \<in>
           {Inl (TSSLException ''authorize: access denied based on remote IP''),
            Inl (TSSLException ''authorize: access denied''),
            Inl (TSSLException ''authorize: cannot authorize peer'')}"
    unfolding c(2) by simp
  from a b d e show ?thesis
    by (intro conjI)
qed

theorem authorize_consults_sources_in_order_witness:
  "verify_result (verified_session wildcard_certificate) = X509_V_OK
   \<and> peer_certificate (verified_session wildcard_certificate) = Some wildcard_certificate
   \<and> access client_socket = Some DefaultClientAccessManager
   \<and> identity_sources client_socket wildcard_certificate =
       [VerifyAddr unspec_sockaddr,
        VerifyHost ''svc.example.com'' ''*.example.com'' 13,
        VerifyHost ''svc.example.com'' ''example.com'' 11]
   \<and> snd (authorize client_socket (verified_session wildcard_certificate)) =
       [VerifyAddr unspec_sockaddr, VerifyHost ''svc.example.com'' ''*.example.com'' 13]
   \<and> fst (authorize client_socket (verified_session wildcard_certificate)) = Inr ()"
proof -
  let ?q0 = "VerifyAddr unspec_sockaddr"
  let ?q1 = "VerifyHost ''svc.example.com'' ''*.example.com'' 13"
  let ?q2 = "VerifyHost ''svc.example.com'' ''example.com'' 11"
  have h1: "verify_result (verified_session wildcard_certificate) = X509_V_OK"
    by (simp add: verified_session_def)
  have h2: "peer_certificate (verified_session wildcard_certificate) = Some wildcard_certificate"
    by (simp add: verified_session_def)
  have h3: "access client_socket = Some DefaultClientAccessManager"
    by (simp add: client_socket_def)
  have src: "identity_sources client_socket wildcard_certificate = [?q0, ?q1, ?q2]"
    by (simp add: identity_sources_def peer_sockaddr_def role_host_def alt_names_def
        subject_entries_def cn_host_def cn_queries_def has_dns_def client_socket_def
        wildcard_certificate_def)
  have a0: "ask DefaultClientAccessManager ?q0 = SKIP"
    by (simp add: ask_def DefaultClientAccessManager_def DefaultClientAccessManager_verify_addr_def)
  have m: "matchName ''svc.example.com'' ''*.example.com'' 13"
    by code_simp
  have a1: "ask DefaultClientAccessManager ?q1 = ALLOW"
    using m by (simp add: ask_def DefaultClientAccessManager_def
        DefaultClientAccessManager_verify_host_def)
  note t = authorize_consults_sources_in_order [OF h1 h2 h3]
  have l: "snd (authorize client_socket (verified_session wildcard_certificate)) = [?q0, ?q1]"
    using t a0 a1 unfolding src by simp
  have "fst (consult DefaultClientAccessManager [?q0, ?q1, ?q2]) = ALLOW"
    using a0 a1 by simp
  then have r: "fst (authorize client_socket (verified_session wildcard_certificate)) = Inr ()"
    using t unfolding src by blast
  from h1 h2 h3 src l r show ?thesis
    by (intro conjI)
qed

text \<open>
  Claim C4 (fails on the code). A server-role socket whose peer presents a certificate
  without alternate names, so that no hostname was resolved before the common names:
  the common name is checked against \<^verbatim>\<open>getHost()\<close>, here empty, and the peer is
  refused, although its hostname \<^verbatim>\<open>getPeerHost()\<close> matches the common name.
\<close>

theorem server_common_name_uses_configured_host:
  "authorize server_socket (verified_session client_certificate) =
     (Inl (TSSLException ''authorize: cannot authorize peer''),
      [VerifyAddr unspec_sockaddr, VerifyHost [] ''client.example.com'' 18])
   \<and> getPeerHost server_socket = ''client.example.com''
   \<and> verify_host DefaultClientAccessManager (getPeerHost server_socket)
         (Some ''client.example.com'') 18 = ALLOW"
  by code_simp

subsection \<open>The default access manager\<close>

text \<open>
  Claim C7. The default manager's check of a bare network address is \<open>SKIP\<close> for
  every address. Its check of a raw address pattern is \<open>ALLOW\<close> iff the pattern's
  bytes are the peer's address bytes of the matching family (the 4 bytes of an IPv4
  peer, the 16 bytes of an IPv6 peer), \<open>SKIP\<close> otherwise (a mismatch of family, of
  length or of a byte), and never \<open>DENY\<close>.
\<close>

theorem default_manager_address_checks:
  assumes "length (sin_addr sa) = 4" and "length (sin6_addr sa) = 16"
  shows "verify_addr DefaultClientAccessManager sa' = SKIP
    \<and> (verify_data DefaultClientAccessManager sa pat (int (length pat)) = ALLOW) =
        (ss_family sa = AF_INET \<and> pat = sin_addr sa \<or>
         ss_family sa = AF_INET6 \<and> pat = sin6_addr sa)
    \<and> (verify_data DefaultClientAccessManager sa pat (int (length pat)) = SKIP) =
        (\<not> (ss_family sa = AF_INET \<and> pat = sin_addr sa \<or>
            ss_family sa = AF_INET6 \<and> pat = sin6_addr sa))
    \<and> verify_data DefaultClientAccessManager sa pat (int (length pat)) \<noteq> DENY"
proof -
  have v4: "length pat = 4 \<Longrightarrow> memcmp_eq (sin_addr sa) pat 4 = (pat = sin_addr sa)"
    using assms(1) by (auto simp: memcmp_eq_def)
  have v6: "length pat = 16 \<Longrightarrow> memcmp_eq (sin6_addr sa) pat 16 = (pat = sin6_addr sa)"
    using assms(2) by (auto simp: memcmp_eq_def)
  have l4: "pat = sin_addr sa \<Longrightarrow> length pat = 4"
    using assms(1) by simp
  have l6: "pat = sin6_addr sa \<Longrightarrow> length pat = 16"
    using assms(2) by simp
  show ?thesis
    using v4 v6 l4 l6
    by (auto simp: DefaultClientAccessManager_def DefaultClientAccessManager_verify_addr_def
        DefaultClientAccessManager_verify_data_def sizeof_in_addr_def sizeof_in6_addr_def Let_def)
qed

theorem default_manager_address_checks_witness:
  "length (sin_addr loopback_peer) = 4 \<and> length (sin6_addr loopback_peer) = 16
   \<and> verify_data DefaultClientAccessManager loopback_peer
        [CHR 0x7F, CHR 0x00, CHR 0x00, CHR 0x01] 4 = ALLOW
   \<and> verify_data DefaultClientAccessManager loopback_peer
        [CHR 0x7F, CHR 0x00, CHR 0x00, CHR 0x02] 4 = SKIP
   \<and> verify_data DefaultClientAccessManager loopback_peer
        [CHR 0x7F, CHR 0x00, CHR 0x00] 3 = SKIP"
proof -
  have h1: "length (sin_addr loopback_peer) = 4"
    by (simp add: loopback_peer_def)
  have h2: "length (sin6_addr loopback_peer) = 16"
    by (simp add: loopback_peer_def)
  show ?thesis
    using default_manager_address_checks [OF h1 h2, of undefined "[CHR 0x7F, CHR 0x00, CHR 0x00, CHR 0x01]"]
      default_manager_address_checks [OF h1 h2, of undefined "[CHR 0x7F, CHR 0x00, CHR 0x00, CHR 0x02]"]
      default_manager_address_checks [OF h1 h2, of undefined "[CHR 0x7F, CHR 0x00, CHR 0x00]"]
      h1 h2
    by (simp add: loopback_peer_def)
qed

subsection \<open>Loading key material\<close>

text \<open>
  Claim C9 (fails on the code). \<^verbatim>\<open>loadPrivateKey\<close> with a path and the format
  \<^verbatim>\<open>"DER"\<close> returns normally, without loading anything, where \<^verbatim>\<open>loadCertificate\<close>
  raises for the same format.
\<close>

theorem loadPrivateKey_ignores_unsupported_format:
  "loadPrivateKey eng (Some ''server.key'') (Some ''DER'') = Inr ()
   \<and> loadCertificate eng (Some ''server.crt'') (Some ''DER'') =
       Inl (TSSLException ''Unsupported certificate format: DER'')"
  by (simp add: loadPrivateKey_def loadCertificate_def)

end
